theory Spec2Isabelle
  imports Main
begin

section \<open>Data model of \<^verbatim>\<open>othello.py\<close>\<close>

text \<open>
  \<^verbatim>\<open>class Player(Enum)\<close>: the three members and their integer values. The same integers
  are the contents of the cells of the grid.
\<close>

datatype Player = BLACK | WHITE | EMPTY

fun player_value :: "Player \<Rightarrow> int" where
  "player_value BLACK = 1"
| "player_value WHITE = - 1"
| "player_value EMPTY = 0"

text \<open>
  \<^verbatim>\<open>class OthelloBoard\<close>: the field \<^verbatim>\<open>size\<close> and the numpy array \<^verbatim>\<open>board\<close> of shape
  (size, size), as a list of rows. The constructor and \<^verbatim>\<open>copy\<close> always build an array of
  that shape; \<open>wf_board\<close> states it. Python objects are mutated in place; here every
  operation returns the new board, and \<^verbatim>\<open>copy\<close> is the identity on values.
\<close>

record OthelloBoard =
  b_size :: nat
  b_board :: "int list list"

datatype py_error = IndexError

definition wf_board :: "OthelloBoard \<Rightarrow> bool" where
  "wf_board b \<longleftrightarrow>
     length (b_board b) = b_size b \<and> list_all (\<lambda>row. length row = b_size b) (b_board b)"

definition cells_valid :: "OthelloBoard \<Rightarrow> bool" where
  "cells_valid b \<longleftrightarrow>
     list_all (list_all (\<lambda>v. v = player_value EMPTY \<or> v = player_value BLACK
                              \<or> v = player_value WHITE)) (b_board b)"

text \<open>The loop guard \<^verbatim>\<open>0 <= r < self.size and 0 <= c < self.size\<close>.\<close>

definition in_bounds :: "OthelloBoard \<Rightarrow> int \<Rightarrow> int \<Rightarrow> bool" where
  "in_bounds b r c \<longleftrightarrow> 0 \<le> r \<and> r < int (b_size b) \<and> 0 \<le> c \<and> c < int (b_size b)"

text \<open>
  \<^verbatim>\<open>self.board[r, c]\<close> read and written at indices that the guard has checked: on a board
  of the right shape no index error and no wrap-around of a negative index can happen.
\<close>

definition cell_at :: "OthelloBoard \<Rightarrow> int \<Rightarrow> int \<Rightarrow> int" where
  "cell_at b r c = b_board b ! nat r ! nat c"

definition set_cell :: "OthelloBoard \<Rightarrow> int \<Rightarrow> int \<Rightarrow> int \<Rightarrow> OthelloBoard" where
  "set_cell b r c v = b\<lparr>b_board := (b_board b)[nat r := (b_board b ! nat r)[nat c := v]]\<rparr>"

text \<open>
  Unguarded numpy indexing, used by the constructor: an index \<open>i\<close> with \<open>-n \<le> i < 0\<close>
  counts from the end, and an index outside \<open>-n \<le> i < n\<close> raises \<^verbatim>\<open>IndexError\<close>.
\<close>

definition np_index :: "nat \<Rightarrow> int \<Rightarrow> int option" where
  "np_index n i =
     (if - int n \<le> i \<and> i < int n then Some (if i < 0 then i + int n else i) else None)"

definition np_setitem :: "OthelloBoard \<Rightarrow> int \<Rightarrow> int \<Rightarrow> int \<Rightarrow> py_error + OthelloBoard" where
  "np_setitem b r c v =
     (case np_index (length (b_board b)) r of
        None \<Rightarrow> Inl IndexError
      | Some i \<Rightarrow>
          (case np_index (length (b_board b ! nat i)) c of
             None \<Rightarrow> Inl IndexError
           | Some j \<Rightarrow> Inr (set_cell b i j v)))"

definition setup_initial_position :: "OthelloBoard \<Rightarrow> py_error + OthelloBoard" where
  "setup_initial_position b =
     (let center = int (b_size b) div 2 in
      case np_setitem b (center - 1) (center - 1) (player_value WHITE) of
        Inl e \<Rightarrow> Inl e
      | Inr b1 \<Rightarrow>
      case np_setitem b1 (center - 1) center (player_value BLACK) of
        Inl e \<Rightarrow> Inl e
      | Inr b2 \<Rightarrow>
      case np_setitem b2 center (center - 1) (player_value BLACK) of
        Inl e \<Rightarrow> Inl e
      | Inr b3 \<Rightarrow> np_setitem b3 center center (player_value WHITE))"

text \<open>\<^verbatim>\<open>OthelloBoard.__init__\<close>: \<^verbatim>\<open>np.zeros((size, size))\<close>, then the four centre pieces.\<close>

definition init_board :: "nat \<Rightarrow> py_error + OthelloBoard" where
  "init_board n =
     setup_initial_position \<lparr>b_size = n, b_board = replicate n (replicate n 0)\<rparr>"

text \<open>
  The literal list \<^verbatim>\<open>directions\<close> of \<^verbatim>\<open>is_valid_move\<close> and \<^verbatim>\<open>make_move\<close>, in source order.
\<close>

definition directions :: "(int \<times> int) list" where
  "directions = [(- 1, - 1), (- 1, 0), (- 1, 1), (0, - 1), (0, 1), (1, - 1), (1, 0), (1, 1)]"

text \<open>
  The \<^verbatim>\<open>while\<close> loop of \<^verbatim>\<open>_can_flip_in_direction\<close>. With \<open>dr = dc = 0\<close> the source loop
  would never leave an opponent's cell, so the loop is a partial function: \<open>None\<close> is
  "does not return". \<open>pv\<close> is \<^verbatim>\<open>player.value\<close>.
\<close>

partial_function (option) can_flip_loop ::
  "OthelloBoard \<Rightarrow> int \<Rightarrow> int \<Rightarrow> int \<Rightarrow> int \<Rightarrow> int \<Rightarrow> bool \<Rightarrow> bool option" where
  "can_flip_loop b r c dr dc pv found_opponent =
     (if in_bounds b r c then
        (if cell_at b r c = player_value EMPTY then Some False
         else if cell_at b r c = pv then Some found_opponent
         else can_flip_loop b (r + dr) (c + dc) dr dc pv True)
      else Some False)"

declare can_flip_loop.simps [code]

text \<open>
  \<^verbatim>\<open>_can_flip_in_direction\<close>. The loop returns for each of the eight directions
  (lemma \<open>can_flip_loop_total\<close> below), which are the only ones the source passes.
\<close>

definition can_flip_from ::
  "OthelloBoard \<Rightarrow> int \<Rightarrow> int \<Rightarrow> int \<Rightarrow> int \<Rightarrow> int \<Rightarrow> bool \<Rightarrow> bool" where
  "can_flip_from b r c dr dc pv found_opponent = the (can_flip_loop b r c dr dc pv found_opponent)"

definition can_flip_in_direction ::
  "OthelloBoard \<Rightarrow> int \<Rightarrow> int \<Rightarrow> int \<Rightarrow> int \<Rightarrow> Player \<Rightarrow> bool" where
  "can_flip_in_direction b row col dr dc player =
     can_flip_from b (row + dr) (col + dc) dr dc (player_value player) False"

text \<open>\<^verbatim>\<open>is_valid_move\<close>: the first direction that can flip returns \<^verbatim>\<open>True\<close>.\<close>

definition is_valid_move :: "OthelloBoard \<Rightarrow> int \<Rightarrow> int \<Rightarrow> Player \<Rightarrow> bool" where
  "is_valid_move b row col player =
     (if \<not> in_bounds b row col then False
      else if cell_at b row col \<noteq> player_value EMPTY then False
      else list_ex (\<lambda>(dr, dc). can_flip_in_direction b row col dr dc player) directions)"

text \<open>
  The \<^verbatim>\<open>while\<close> loop of \<^verbatim>\<open>_flip_pieces_in_direction\<close>, which writes the player's value
  into every cell it passes until it meets one that already holds it.
\<close>

partial_function (option) flip_loop ::
  "OthelloBoard \<Rightarrow> int \<Rightarrow> int \<Rightarrow> int \<Rightarrow> int \<Rightarrow> int \<Rightarrow> OthelloBoard option" where
  "flip_loop b r c dr dc pv =
     (if in_bounds b r c then
        (if cell_at b r c = pv then Some b
         else flip_loop (set_cell b r c pv) (r + dr) (c + dc) dr dc pv)
      else Some b)"

declare flip_loop.simps [code]

definition flip_from :: "OthelloBoard \<Rightarrow> int \<Rightarrow> int \<Rightarrow> int \<Rightarrow> int \<Rightarrow> int \<Rightarrow> OthelloBoard" where
  "flip_from b r c dr dc pv = the (flip_loop b r c dr dc pv)"

definition flip_pieces_in_direction ::
  "OthelloBoard \<Rightarrow> int \<Rightarrow> int \<Rightarrow> int \<Rightarrow> int \<Rightarrow> Player \<Rightarrow> OthelloBoard" where
  "flip_pieces_in_direction b row col dr dc player =
     flip_from b (row + dr) (col + dc) dr dc (player_value player)"

text \<open>
  The \<^verbatim>\<open>for dr, dc in directions\<close> loop of \<^verbatim>\<open>make_move\<close>: each test reads the board as the
  earlier directions have left it.
\<close>

fun flip_directions ::
  "OthelloBoard \<Rightarrow> int \<Rightarrow> int \<Rightarrow> Player \<Rightarrow> (int \<times> int) list \<Rightarrow> OthelloBoard" where
  "flip_directions b row col player [] = b"
| "flip_directions b row col player ((dr, dc) # ds) =
     flip_directions
       (if can_flip_in_direction b row col dr dc player
        then flip_pieces_in_direction b row col dr dc player else b)
       row col player ds"

text \<open>\<^verbatim>\<open>make_move\<close> returns the flag and the board after the call.\<close>

definition make_move :: "OthelloBoard \<Rightarrow> int \<Rightarrow> int \<Rightarrow> Player \<Rightarrow> bool \<times> OthelloBoard" where
  "make_move b row col player =
     (if \<not> is_valid_move b row col player then (False, b)
      else (True,
            flip_directions (set_cell b row col (player_value player)) row col player
              directions))"

text \<open>\<^verbatim>\<open>get_valid_moves\<close>: the cells in row-major order that are valid moves.\<close>

definition get_valid_moves :: "OthelloBoard \<Rightarrow> Player \<Rightarrow> (int \<times> int) list" where
  "get_valid_moves b player =
     concat (map (\<lambda>row. concat (map (\<lambda>col.
         if is_valid_move b (int row) (int col) player then [(int row, int col)] else [])
       [0..<b_size b])) [0..<b_size b])"

text \<open>\<^verbatim>\<open>get_score\<close>: \<^verbatim>\<open>np.sum(self.board == v)\<close> counts the cells of the array equal to \<open>v\<close>.\<close>

definition count_cells :: "OthelloBoard \<Rightarrow> int \<Rightarrow> int" where
  "count_cells b v = sum_list (map (\<lambda>row. int (length (filter (\<lambda>x. x = v) row))) (b_board b))"

definition get_score :: "OthelloBoard \<Rightarrow> int \<times> int" where
  "get_score b = (count_cells b (player_value BLACK), count_cells b (player_value WHITE))"

definition is_game_over :: "OthelloBoard \<Rightarrow> bool" where
  "is_game_over b \<longleftrightarrow> length (get_valid_moves b BLACK) = 0 \<and> length (get_valid_moves b WHITE) = 0"


section \<open>The CPU player\<close>

text \<open>
  \<^verbatim>\<open>class OthelloCPU\<close>. \<^verbatim>\<open>__init__\<close> derives \<^verbatim>\<open>opponent\<close> from \<^verbatim>\<open>player\<close>; the table
  \<^verbatim>\<open>position_values\<close> is the same constant 8 by 8 array in every instance.
\<close>

record OthelloCPU =
  cpu_player :: Player
  cpu_opponent :: Player
  cpu_difficulty :: int

definition init_cpu :: "Player \<Rightarrow> int \<Rightarrow> OthelloCPU" where
  "init_cpu player difficulty =
     \<lparr>cpu_player = player,
      cpu_opponent = (if player = BLACK then WHITE else BLACK),
      cpu_difficulty = difficulty\<rparr>"

definition position_values :: "int list list" where
  "position_values =
     [[100, - 20, 10, 5, 5, 10, - 20, 100],
      [- 20, - 50, - 2, - 2, - 2, - 2, - 50, - 20],
      [10, - 2, - 1, - 1, - 1, - 1, - 2, 10],
      [5, - 2, - 1, - 1, - 1, - 1, - 2, 5],
      [5, - 2, - 1, - 1, - 1, - 1, - 2, 5],
      [10, - 2, - 1, - 1, - 1, - 1, - 2, 10],
      [- 20, - 50, - 2, - 2, - 2, - 2, - 50, - 20],
      [100, - 20, 10, 5, 5, 10, - 20, 100]]"

text \<open>
  \<^verbatim>\<open>self.position_values[row, col]\<close> for \<open>row\<close> and \<open>col\<close> drawn from \<^verbatim>\<open>range(board.size)\<close>:
  numpy raises \<^verbatim>\<open>IndexError\<close> for an index of 8 or more.
\<close>

definition position_value :: "nat \<Rightarrow> nat \<Rightarrow> py_error + int" where
  "position_value row col =
     (if row < length position_values \<and> col < length (position_values ! row)
      then Inr (position_values ! row ! col) else Inl IndexError)"

text \<open>
  The two nested \<^verbatim>\<open>for\<close> loops of \<^verbatim>\<open>_evaluate_board\<close> that add up \<^verbatim>\<open>position_score\<close>.
  The table is read only for a cell held by the player or by the opponent.
\<close>

definition position_step :: "OthelloCPU \<Rightarrow> OthelloBoard \<Rightarrow> nat \<Rightarrow> nat \<Rightarrow> int \<Rightarrow> py_error + int" where
  "position_step cpu b row col position_score =
     (if cell_at b (int row) (int col) = player_value (cpu_player cpu) then
        (case position_value row col of
           Inl e \<Rightarrow> Inl e
         | Inr w \<Rightarrow> Inr (position_score + w))
      else if cell_at b (int row) (int col) = player_value (cpu_opponent cpu) then
        (case position_value row col of
           Inl e \<Rightarrow> Inl e
         | Inr w \<Rightarrow> Inr (position_score - w))
      else Inr position_score)"

fun position_cols :: "OthelloCPU \<Rightarrow> OthelloBoard \<Rightarrow> nat \<Rightarrow> nat list \<Rightarrow> int \<Rightarrow> py_error + int" where
  "position_cols cpu b row [] position_score = Inr position_score"
| "position_cols cpu b row (col # cols) position_score =
     (case position_step cpu b row col position_score of
        Inl e \<Rightarrow> Inl e
      | Inr s \<Rightarrow> position_cols cpu b row cols s)"

fun position_rows :: "OthelloCPU \<Rightarrow> OthelloBoard \<Rightarrow> nat list \<Rightarrow> int \<Rightarrow> py_error + int" where
  "position_rows cpu b [] position_score = Inr position_score"
| "position_rows cpu b (row # rows) position_score =
     (case position_cols cpu b row [0..<b_size b] position_score of
        Inl e \<Rightarrow> Inl e
      | Inr s \<Rightarrow> position_rows cpu b rows s)"

text \<open>
  \<^verbatim>\<open>_evaluate_board\<close>. The source accumulates the score in a float that starts at 0.0; every
  summand is an integer far below \<open>2^53\<close>, so the float arithmetic is exact and the
  score is an \<open>int\<close> here.
\<close>

definition terminal_score :: "OthelloCPU \<Rightarrow> OthelloBoard \<Rightarrow> int" where
  "terminal_score cpu b =
     (let (black_score, white_score) = get_score b in
      if cpu_player cpu = BLACK then
        (if black_score > white_score then 1000
         else if black_score < white_score then - 1000
         else 0)
      else
        (if white_score > black_score then 1000
         else if white_score < black_score then - 1000
         else 0))"

definition heuristic_score :: "OthelloCPU \<Rightarrow> OthelloBoard \<Rightarrow> py_error + int" where
  "heuristic_score cpu b =
     (let (black_score, white_score) = get_score b;
          piece_diff = (black_score - white_score) * (if cpu_player cpu = BLACK then 1 else - 1);
          score = piece_diff * 10
      in case position_rows cpu b [0..<b_size b] 0 of
           Inl e \<Rightarrow> Inl e
         | Inr position_score \<Rightarrow>
             (let score = score + position_score;
                  cpu_moves = int (length (get_valid_moves b (cpu_player cpu)));
                  opponent_moves = int (length (get_valid_moves b (cpu_opponent cpu)))
              in Inr (score + (cpu_moves - opponent_moves) * 5)))"

definition evaluate_board :: "OthelloCPU \<Rightarrow> OthelloBoard \<Rightarrow> py_error + int" where
  "evaluate_board cpu b =
     (if is_game_over b then Inr (terminal_score cpu b) else heuristic_score cpu b)"

text \<open>
  \<^verbatim>\<open>_get_greedy_move\<close>: the loop with its two variables \<^verbatim>\<open>best_move\<close> and \<^verbatim>\<open>best_score\<close>;
  \<^verbatim>\<open>valid_moves[0]\<close> raises on an empty list.
\<close>

fun greedy_loop ::
  "OthelloCPU \<Rightarrow> OthelloBoard \<Rightarrow> (int \<times> int) list \<Rightarrow> int \<times> int \<Rightarrow> int \<Rightarrow> py_error + int \<times> int"
  where
  "greedy_loop cpu b [] best_move best_score = Inr best_move"
| "greedy_loop cpu b (move # moves) best_move best_score =
     (let test_board = snd (make_move b (fst move) (snd move) (cpu_player cpu)) in
      case evaluate_board cpu test_board of
        Inl e \<Rightarrow> Inl e
      | Inr score \<Rightarrow>
          (if score > best_score then greedy_loop cpu b moves move score
           else greedy_loop cpu b moves best_move best_score))"

definition get_greedy_move ::
  "OthelloCPU \<Rightarrow> OthelloBoard \<Rightarrow> (int \<times> int) list \<Rightarrow> py_error + int \<times> int" where
  "get_greedy_move cpu b valid_moves =
     (case valid_moves of
        [] \<Rightarrow> Inl IndexError
      | m0 # _ \<Rightarrow> greedy_loop cpu b valid_moves m0 (- 1))"

text \<open>
  Scores of the search: the floats of the source, which are \<^verbatim>\<open>float('-inf')\<close>,
  \<^verbatim>\<open>float('inf')\<close> or a value of the evaluator.
\<close>

datatype score = NegInf | Num int | PosInf

instantiation score :: linorder
begin

fun less_eq_score :: "score \<Rightarrow> score \<Rightarrow> bool" where
  "less_eq_score NegInf y = True"
| "less_eq_score (Num x) NegInf = False"
| "less_eq_score (Num x) (Num y) = (x \<le> y)"
| "less_eq_score (Num x) PosInf = True"
| "less_eq_score PosInf PosInf = True"
| "less_eq_score PosInf y = False"

definition less_score :: "score \<Rightarrow> score \<Rightarrow> bool" where
  "less_score x y \<longleftrightarrow> x \<le> y \<and> \<not> y \<le> x"

instance
proof
  fix x y z :: score
  show "(x < y) = (x \<le> y \<and> \<not> y \<le> x)" by (simp add: less_score_def)
  show "x \<le> x" by (cases x) simp_all
  show "x \<le> y \<Longrightarrow> y \<le> z \<Longrightarrow> x \<le> z" by (cases x; cases y; cases z) simp_all
  show "x \<le> y \<Longrightarrow> y \<le> x \<Longrightarrow> x = y" by (cases x; cases y) simp_all
  show "x \<le> y \<or> y \<le> x" by (cases x; cases y) auto
qed

end

text \<open>
  \<^verbatim>\<open>_minimax\<close>. The two \<^verbatim>\<open>for\<close> loops are \<open>max_loop\<close> and \<open>min_loop\<close>; their arguments
  are the loop variables (\<^verbatim>\<open>max_score\<close> or \<^verbatim>\<open>min_score\<close>, \<^verbatim>\<open>alpha\<close>, \<^verbatim>\<open>beta\<close>), the moves
  still to visit and the depth \<^verbatim>\<open>depth - 1\<close> of the recursive calls. The depth is a
  natural number: \<^verbatim>\<open>get_move\<close> passes \<^verbatim>\<open>difficulty - 1\<close>, and the difficulty levels are
  1 to 5. An exception of the evaluator ends the search.
\<close>

function minimax ::
    "OthelloCPU \<Rightarrow> OthelloBoard \<Rightarrow> nat \<Rightarrow> score \<Rightarrow> score \<Rightarrow> bool \<Rightarrow> py_error + score"
  and max_loop ::
    "OthelloCPU \<Rightarrow> OthelloBoard \<Rightarrow> nat \<Rightarrow> Player \<Rightarrow> (int \<times> int) list \<Rightarrow> score \<Rightarrow> score \<Rightarrow> score
       \<Rightarrow> py_error + score"
  and min_loop ::
    "OthelloCPU \<Rightarrow> OthelloBoard \<Rightarrow> nat \<Rightarrow> Player \<Rightarrow> (int \<times> int) list \<Rightarrow> score \<Rightarrow> score \<Rightarrow> score
       \<Rightarrow> py_error + score"
  where
  "minimax cpu b depth alpha beta is_maximizing =
     (if depth = 0 \<or> is_game_over b then
        (case evaluate_board cpu b of Inl e \<Rightarrow> Inl e | Inr v \<Rightarrow> Inr (Num v))
      else
        (let current_player = (if is_maximizing then cpu_player cpu else cpu_opponent cpu);
             valid_moves = get_valid_moves b current_player
         in if valid_moves = [] then minimax cpu b (depth - 1) alpha beta (\<not> is_maximizing)
            else if is_maximizing then
              max_loop cpu b (depth - 1) current_player valid_moves NegInf alpha beta
            else
              min_loop cpu b (depth - 1) current_player valid_moves PosInf alpha beta))"
| "max_loop cpu b d current_player [] max_score alpha beta = Inr max_score"
| "max_loop cpu b d current_player (move # moves) max_score alpha beta =
     (let test_board = snd (make_move b (fst move) (snd move) current_player) in
      case minimax cpu test_board d alpha beta False of
        Inl e \<Rightarrow> Inl e
      | Inr score \<Rightarrow>
          (let max_score = max max_score score;
               alpha = max alpha score
           in if beta \<le> alpha then Inr max_score
              else max_loop cpu b d current_player moves max_score alpha beta))"
| "min_loop cpu b d current_player [] min_score alpha beta = Inr min_score"
| "min_loop cpu b d current_player (move # moves) min_score alpha beta =
     (let test_board = snd (make_move b (fst move) (snd move) current_player) in
      case minimax cpu test_board d alpha beta True of
        Inl e \<Rightarrow> Inl e
      | Inr score \<Rightarrow>
          (let min_score = min min_score score;
               beta = min beta score
           in if beta \<le> alpha then Inr min_score
              else min_loop cpu b d current_player moves min_score alpha beta))"
  by pat_completeness auto
termination
  by (relation "inv_image (less_than <*lex*> less_than) (\<lambda>x. case x of
         Inl (cpu, b, depth, alpha, beta, mx) \<Rightarrow> (2 * depth, 0)
       | Inr (Inl (cpu, b, d, cur, moves, ms, alpha, beta)) \<Rightarrow> (2 * d + 1, length moves)
       | Inr (Inr (cpu, b, d, cur, moves, ms, alpha, beta)) \<Rightarrow> (2 * d + 1, length moves))")
    auto


text \<open>
  \<^verbatim>\<open>_get_minimax_move\<close>: every legal move is searched with the full window and
  the minimizing opponent to move; a strictly greater score replaces the best move.
\<close>

fun minimax_move_loop ::
  "OthelloCPU \<Rightarrow> OthelloBoard \<Rightarrow> (int \<times> int) list \<Rightarrow> int \<times> int \<Rightarrow> score \<Rightarrow> py_error + int \<times> int"
  where
  "minimax_move_loop cpu b [] best_move best_score = Inr best_move"
| "minimax_move_loop cpu b (move # moves) best_move best_score =
     (let test_board = snd (make_move b (fst move) (snd move) (cpu_player cpu)) in
      case minimax cpu test_board (nat (cpu_difficulty cpu - 1)) NegInf PosInf False of
        Inl e \<Rightarrow> Inl e
      | Inr score \<Rightarrow>
          (if score > best_score then minimax_move_loop cpu b moves move score
           else minimax_move_loop cpu b moves best_move best_score))"

definition get_minimax_move ::
  "OthelloCPU \<Rightarrow> OthelloBoard \<Rightarrow> (int \<times> int) list \<Rightarrow> py_error + int \<times> int" where
  "get_minimax_move cpu b valid_moves =
     (case valid_moves of
        [] \<Rightarrow> Inl IndexError
      | m0 # _ \<Rightarrow> minimax_move_loop cpu b valid_moves m0 NegInf)"

text \<open>
  \<^verbatim>\<open>_get_random_move\<close>: \<^verbatim>\<open>random.choice\<close> draws an index below the length of the list;
  the draw is the argument \<open>rnd\<close>.
\<close>

definition get_random_move :: "(int \<times> int) list \<Rightarrow> nat \<Rightarrow> int \<times> int" where
  "get_random_move valid_moves rnd = valid_moves ! (rnd mod length valid_moves)"

text \<open>\<^verbatim>\<open>get_move\<close>: \<open>Inr None\<close> is the \<^verbatim>\<open>None\<close> of the source.\<close>

definition get_move :: "OthelloCPU \<Rightarrow> OthelloBoard \<Rightarrow> nat \<Rightarrow> py_error + (int \<times> int) option" where
  "get_move cpu b rnd =
     (let valid_moves = get_valid_moves b (cpu_player cpu) in
      if valid_moves = [] then Inr None
      else if cpu_difficulty cpu = 1 then Inr (Some (get_random_move valid_moves rnd))
      else if cpu_difficulty cpu = 2 then
        (case get_greedy_move cpu b valid_moves of Inl e \<Rightarrow> Inl e | Inr m \<Rightarrow> Inr (Some m))
      else
        (case get_minimax_move cpu b valid_moves of Inl e \<Rightarrow> Inl e | Inr m \<Rightarrow> Inr (Some m)))"

section \<open>The unpruned reference search\<close>

text \<open>
  The reference of the specification: minimax of the same depth over the same move order,
  without the window and without the cut-off, and the same choice of the first move that
  reaches the strictly best score.
\<close>

function unpruned_minimax ::
    "OthelloCPU \<Rightarrow> OthelloBoard \<Rightarrow> nat \<Rightarrow> bool \<Rightarrow> py_error + score"
  and unpruned_max_loop ::
    "OthelloCPU \<Rightarrow> OthelloBoard \<Rightarrow> nat \<Rightarrow> Player \<Rightarrow> (int \<times> int) list \<Rightarrow> score \<Rightarrow> py_error + score"
  and unpruned_min_loop ::
    "OthelloCPU \<Rightarrow> OthelloBoard \<Rightarrow> nat \<Rightarrow> Player \<Rightarrow> (int \<times> int) list \<Rightarrow> score \<Rightarrow> py_error + score"
  where
  "unpruned_minimax cpu b depth is_maximizing =
     (if depth = 0 \<or> is_game_over b then
        (case evaluate_board cpu b of Inl e \<Rightarrow> Inl e | Inr v \<Rightarrow> Inr (Num v))
      else
        (let current_player = (if is_maximizing then cpu_player cpu else cpu_opponent cpu);
             valid_moves = get_valid_moves b current_player
         in if valid_moves = [] then unpruned_minimax cpu b (depth - 1) (\<not> is_maximizing)
            else if is_maximizing then
              unpruned_max_loop cpu b (depth - 1) current_player valid_moves NegInf
            else
              unpruned_min_loop cpu b (depth - 1) current_player valid_moves PosInf))"
| "unpruned_max_loop cpu b d current_player [] max_score = Inr max_score"
| "unpruned_max_loop cpu b d current_player (move # moves) max_score =
     (let test_board = snd (make_move b (fst move) (snd move) current_player) in
      case unpruned_minimax cpu test_board d False of
        Inl e \<Rightarrow> Inl e
      | Inr score \<Rightarrow> unpruned_max_loop cpu b d current_player moves (max max_score score))"
| "unpruned_min_loop cpu b d current_player [] min_score = Inr min_score"
| "unpruned_min_loop cpu b d current_player (move # moves) min_score =
     (let test_board = snd (make_move b (fst move) (snd move) current_player) in
      case unpruned_minimax cpu test_board d True of
        Inl e \<Rightarrow> Inl e
      | Inr score \<Rightarrow> unpruned_min_loop cpu b d current_player moves (min min_score score))"
  by pat_completeness auto
termination
  by (relation "inv_image (less_than <*lex*> less_than) (\<lambda>x. case x of
         Inl (cpu, b, depth, mx) \<Rightarrow> (2 * depth, 0)
       | Inr (Inl (cpu, b, d, cur, moves, ms)) \<Rightarrow> (2 * d + 1, length moves)
       | Inr (Inr (cpu, b, d, cur, moves, ms)) \<Rightarrow> (2 * d + 1, length moves))")
    auto

fun unpruned_move_loop ::
  "OthelloCPU \<Rightarrow> OthelloBoard \<Rightarrow> (int \<times> int) list \<Rightarrow> int \<times> int \<Rightarrow> score \<Rightarrow> py_error + int \<times> int"
  where
  "unpruned_move_loop cpu b [] best_move best_score = Inr best_move"
| "unpruned_move_loop cpu b (move # moves) best_move best_score =
     (let test_board = snd (make_move b (fst move) (snd move) (cpu_player cpu)) in
      case unpruned_minimax cpu test_board (nat (cpu_difficulty cpu - 1)) False of
        Inl e \<Rightarrow> Inl e
      | Inr score \<Rightarrow>
          (if score > best_score then unpruned_move_loop cpu b moves move score
           else unpruned_move_loop cpu b moves best_move best_score))"

definition unpruned_get_move :: "OthelloCPU \<Rightarrow> OthelloBoard \<Rightarrow> py_error + (int \<times> int) option" where
  "unpruned_get_move cpu b =
     (case get_valid_moves b (cpu_player cpu) of
        [] \<Rightarrow> Inr None
      | m0 # ms \<Rightarrow>
          (case unpruned_move_loop cpu b (m0 # ms) m0 NegInf of
             Inl e \<Rightarrow> Inl e
           | Inr m \<Rightarrow> Inr (Some m)))"

section \<open>Boards that a game can reach\<close>

text \<open>
  The boards obtained from \<^verbatim>\<open>OthelloBoard(n)\<close> by calls of \<^verbatim>\<open>make_move\<close> with any player
  and any coordinates, successful or not.
\<close>

inductive reachable :: "nat \<Rightarrow> OthelloBoard \<Rightarrow> bool" where
  fresh: "init_board n = Inr b \<Longrightarrow> reachable n b"
| moved: "reachable n b \<Longrightarrow> reachable n (snd (make_move b row col player))"


section \<open>Auxiliary notions\<close>

text \<open>The number of cells that are not empty, and the cells that satisfy a predicate.\<close>

definition count_where :: "OthelloBoard \<Rightarrow> (int \<Rightarrow> bool) \<Rightarrow> int" where
  "count_where b P = sum_list (map (\<lambda>row. int (length (filter P row))) (b_board b))"

definition occupied_cells :: "OthelloBoard \<Rightarrow> int" where
  "occupied_cells b = count_where b (\<lambda>x. x \<noteq> player_value EMPTY)"

text \<open>
  An upper bound on the number of iterations that a walk from \<open>(r, c)\<close> in one of the
  eight directions still makes on a board of size \<open>n\<close>.
\<close>

definition ray_steps :: "nat \<Rightarrow> int \<Rightarrow> int \<Rightarrow> int \<Rightarrow> int \<Rightarrow> nat" where
  "ray_steps n r c dr dc =
     (if dr = 1 then nat (int n - r) else if dr = - 1 then nat (r + 1)
      else if dc = 1 then nat (int n - c) else nat (c + 1))"

text \<open>
  How the result \<open>r\<close> of a search with the window \<open>(alpha, beta)\<close> relates to the exact
  minimax value \<open>v\<close>: inside the window it is exact, at or below \<open>alpha\<close> it is an upper
  bound, at or above \<open>beta\<close> a lower bound.
\<close>

definition within_window :: "score \<Rightarrow> score \<Rightarrow> score \<Rightarrow> score \<Rightarrow> bool" where
  "within_window alpha beta v r \<longleftrightarrow>
     (r \<le> alpha \<longrightarrow> v \<le> r) \<and> (beta \<le> r \<longrightarrow> r \<le> v) \<and> (alpha < r \<and> r < beta \<longrightarrow> r = v)"

text \<open>
  Sums over the cells of an \<open>n\<close> by \<open>n\<close> grid; the summand of \<^verbatim>\<open>position_score\<close> for one
  cell; and the most that one cell can add to the absolute value of the heuristic score:
  an occupied cell adds 10 and its table weight with one sign, an empty cell adds at most
  one legal move, weighted 5.
\<close>

definition grid_sum :: "nat \<Rightarrow> (nat \<Rightarrow> nat \<Rightarrow> int) \<Rightarrow> int" where
  "grid_sum n f = sum_list (map (\<lambda>row. sum_list (map (\<lambda>col. f row col) [0..<n])) [0..<n])"

definition cell_bound :: "nat \<Rightarrow> nat \<Rightarrow> int" where
  "cell_bound row col = max 5 \<bar>10 + position_values ! row ! col\<bar>"

definition position_term :: "OthelloCPU \<Rightarrow> OthelloBoard \<Rightarrow> nat \<Rightarrow> nat \<Rightarrow> int" where
  "position_term cpu b row col =
     (if cell_at b (int row) (int col) = player_value (cpu_player cpu)
      then position_values ! row ! col
      else if cell_at b (int row) (int col) = player_value (cpu_opponent cpu)
      then - (position_values ! row ! col) else 0)"

section \<open>Concrete positions\<close>

text \<open>The standard opening position \<^verbatim>\<open>OthelloBoard(8)\<close>.\<close>

definition initial_8 :: OthelloBoard where
  "initial_8 = \<lparr>b_size = 8, b_board =
     [[0, 0, 0, 0, 0, 0, 0, 0],
      [0, 0, 0, 0, 0, 0, 0, 0],
      [0, 0, 0, 0, 0, 0, 0, 0],
      [0, 0, 0, - 1, 1, 0, 0, 0],
      [0, 0, 0, 1, - 1, 0, 0, 0],
      [0, 0, 0, 0, 0, 0, 0, 0],
      [0, 0, 0, 0, 0, 0, 0, 0],
      [0, 0, 0, 0, 0, 0, 0, 0]]\<rparr>"

text \<open>
  The position after Black (2,3), White (2,2), Black (4,5), White (5,3), Black (6,3) from
  the opening; White is to move.
\<close>

definition greedy_8 :: OthelloBoard where
  "greedy_8 = \<lparr>b_size = 8, b_board =
     [[0, 0, 0, 0, 0, 0, 0, 0],
      [0, 0, 0, 0, 0, 0, 0, 0],
      [0, 0, - 1, 1, 0, 0, 0, 0],
      [0, 0, 0, 1, 1, 0, 0, 0],
      [0, 0, 0, 1, 1, 1, 0, 0],
      [0, 0, 0, 1, 0, 0, 0, 0],
      [0, 0, 0, 1, 0, 0, 0, 0],
      [0, 0, 0, 0, 0, 0, 0, 0]]\<rparr>"

text \<open>
  A board on which Black holds every cell whose table weight exceeds \<open>-10\<close>, White the
  twelve cells next to the corners, and (0,2) is empty.
\<close>

definition heavy_8 :: OthelloBoard where
  "heavy_8 = \<lparr>b_size = 8, b_board =
     [[1, - 1, 0, 1, 1, 1, - 1, 1],
      [- 1, - 1, 1, 1, 1, 1, - 1, - 1],
      [1, 1, 1, 1, 1, 1, 1, 1],
      [1, 1, 1, 1, 1, 1, 1, 1],
      [1, 1, 1, 1, 1, 1, 1, 1],
      [1, 1, 1, 1, 1, 1, 1, 1],
      [- 1, - 1, 1, 1, 1, 1, - 1, - 1],
      [1, - 1, 1, 1, 1, 1, - 1, 1]]\<rparr>"

text \<open>
  The position after Black (5,6), White (4,6), Black (3,6), White (4,7), Black (3,8) from
  \<^verbatim>\<open>OthelloBoard(10)\<close>.
\<close>

definition wide_10 :: OthelloBoard where
  "wide_10 = \<lparr>b_size = 10, b_board =
     [[0, 0, 0, 0, 0, 0, 0, 0, 0, 0],
      [0, 0, 0, 0, 0, 0, 0, 0, 0, 0],
      [0, 0, 0, 0, 0, 0, 0, 0, 0, 0],
      [0, 0, 0, 0, 0, 0, 1, 0, 1, 0],
      [0, 0, 0, 0, - 1, - 1, - 1, 1, 0, 0],
      [0, 0, 0, 0, 1, 1, 1, 0, 0, 0],
      [0, 0, 0, 0, 0, 0, 0, 0, 0, 0],
      [0, 0, 0, 0, 0, 0, 0, 0, 0, 0],
      [0, 0, 0, 0, 0, 0, 0, 0, 0, 0],
      [0, 0, 0, 0, 0, 0, 0, 0, 0, 0]]\<rparr>"

text \<open>Small boards: one where White must pass, one that is full.\<close>

definition pass_4 :: OthelloBoard where
  "pass_4 = \<lparr>b_size = 4, b_board =
     [[1, - 1, 0, 0],
      [0, 0, 0, 0],
      [0, 0, 0, 0],
      [0, 0, 0, 0]]\<rparr>"

definition full_4 :: OthelloBoard where
  "full_4 = \<lparr>b_size = 4, b_board =
     [[1, 1, 1, 1],
      [1, - 1, 1, 1],
      [1, 1, 1, 1],
      [1, 1, 1, 1]]\<rparr>"

definition initial_4 :: OthelloBoard where
  "initial_4 = \<lparr>b_size = 4, b_board =
     [[0, 0, 0, 0],
      [0, - 1, 1, 0],
      [0, 1, - 1, 0],
      [0, 0, 0, 0]]\<rparr>"

definition initial_10 :: OthelloBoard where
  "initial_10 = \<lparr>b_size = 10, b_board =
     [[0, 0, 0, 0, 0, 0, 0, 0, 0, 0],
      [0, 0, 0, 0, 0, 0, 0, 0, 0, 0],
      [0, 0, 0, 0, 0, 0, 0, 0, 0, 0],
      [0, 0, 0, 0, 0, 0, 0, 0, 0, 0],
      [0, 0, 0, 0, - 1, 1, 0, 0, 0, 0],
      [0, 0, 0, 0, 1, - 1, 0, 0, 0, 0],
      [0, 0, 0, 0, 0, 0, 0, 0, 0, 0],
      [0, 0, 0, 0, 0, 0, 0, 0, 0, 0],
      [0, 0, 0, 0, 0, 0, 0, 0, 0, 0],
      [0, 0, 0, 0, 0, 0, 0, 0, 0, 0]]\<rparr>"

section \<open>The walks along a direction\<close>

declare minimax.simps [simp del] unpruned_minimax.simps [simp del]

lemma ray_steps_less:
  "(dr, dc) \<in> set directions \<Longrightarrow> 0 \<le> r \<and> r < int n \<and> 0 \<le> c \<and> c < int n \<Longrightarrow>
     ray_steps n (r + dr) (c + dc) dr dc < ray_steps n r c dr dc"
  by (auto simp: directions_def ray_steps_def)

text \<open>Induction along a walk: a property of a cell follows from that of the next cell.\<close>

lemma ray_induct [consumes 1, case_names step]:
  assumes dir: "(dr, dc) \<in> set directions"
    and step: "\<And>r c. (0 \<le> r \<and> r < int n \<and> 0 \<le> c \<and> c < int n \<Longrightarrow> P (r + dr) (c + dc)) \<Longrightarrow> P r c"
  shows "P r c"
proof (induction "ray_steps n r c dr dc" arbitrary: r c rule: less_induct)
  case less
  show ?case
  proof (rule step)
    assume ib: "0 \<le> r \<and> r < int n \<and> 0 \<le> c \<and> c < int n"
    show "P (r + dr) (c + dc)"
      using less.hyps ray_steps_less[OF dir ib] by blast
  qed
qed

lemma b_size_set_cell [simp]: "b_size (set_cell b r c v) = b_size b"
  by (simp add: set_cell_def)

lemma in_bounds_set_cell [simp]: "in_bounds (set_cell b r c v) r' c' = in_bounds b r' c'"
  by (simp add: in_bounds_def)

text \<open>Both loops return for each of the eight directions.\<close>

lemma can_flip_loop_total:
  assumes "(dr, dc) \<in> set directions"
  shows "\<exists>v. can_flip_loop b r c dr dc pv found = Some v"
proof -
  have "\<forall>found. \<exists>v. can_flip_loop b r c dr dc pv found = Some v"
    using assms
  proof (induction r c rule: ray_induct[where n = "b_size b"])
    case (step r c)
    show ?case
    proof
      fix found
      show "\<exists>v. can_flip_loop b r c dr dc pv found = Some v"
        using step by (subst can_flip_loop.simps) (auto simp: in_bounds_def)
    qed
  qed
  then show ?thesis by simp
qed

lemma flip_loop_total:
  assumes "(dr, dc) \<in> set directions"
  shows "\<exists>b'. flip_loop b r c dr dc pv = Some b' \<and> b_size b' = b_size b"
proof -
  have "\<forall>b. b_size b = n \<longrightarrow> (\<exists>b'. flip_loop b r c dr dc pv = Some b' \<and> b_size b' = n)" for n
    using assms
  proof (induction r c rule: ray_induct[where n = n])
    case (step r c)
    show ?case
    proof (intro allI impI)
      fix b :: OthelloBoard assume n: "b_size b = n"
      show "\<exists>b'. flip_loop b r c dr dc pv = Some b' \<and> b_size b' = n"
      proof (cases "in_bounds b r c \<and> cell_at b r c \<noteq> pv")
        case True
        then have "\<exists>b'. flip_loop (set_cell b r c pv) (r + dr) (c + dc) dr dc pv = Some b'
                     \<and> b_size b' = n"
          using step n by (simp add: in_bounds_def)
        then show ?thesis using True by (subst flip_loop.simps) simp
      next
        case False
        then show ?thesis using n by (subst flip_loop.simps) auto
      qed
    qed
  qed
  then show ?thesis by blast
qed

text \<open>The loops as equations on their results.\<close>

lemma can_flip_from_unfold:
  "can_flip_from b r c dr dc pv found =
     (if in_bounds b r c then
        (if cell_at b r c = 0 then False
         else if cell_at b r c = pv then found
         else can_flip_from b (r + dr) (c + dc) dr dc pv True)
      else False)"
  unfolding can_flip_from_def by (subst can_flip_loop.simps) simp

lemma flip_from_unfold:
  "flip_from b r c dr dc pv =
     (if in_bounds b r c \<and> cell_at b r c \<noteq> pv
      then flip_from (set_cell b r c pv) (r + dr) (c + dc) dr dc pv else b)"
  unfolding flip_from_def by (subst flip_loop.simps) simp

section \<open>Reading and writing cells\<close>

lemma wf_board_set_cell: "wf_board b \<Longrightarrow> wf_board (set_cell b r c v)"
proof (cases "nat r < length (b_board b)")
  case True
  assume wf: "wf_board b"
  have len: "length ((b_board b ! nat r)[nat c := v]) = b_size b"
    using wf True by (simp add: wf_board_def list_all_length)
  have "\<forall>row \<in> set ((b_board b)[nat r := (b_board b ! nat r)[nat c := v]]). length row = b_size b"
    using wf len set_update_subset_insert[of "b_board b" "nat r" "(b_board b ! nat r)[nat c := v]"]
    by (auto simp: wf_board_def list_all_iff)
  then show ?thesis
    using wf by (simp add: wf_board_def set_cell_def list_all_iff)
next
  case False
  assume "wf_board b"
  then show ?thesis using False by (simp add: wf_board_def set_cell_def not_less list_update_beyond)
qed

lemma cells_valid_set_cell:
  "cells_valid b \<Longrightarrow> v = 0 \<or> v = 1 \<or> v = - 1 \<Longrightarrow> cells_valid (set_cell b r c v)"
proof (cases "nat r < length (b_board b)")
  case True
  assume cv: "cells_valid b" and v: "v = 0 \<or> v = 1 \<or> v = - 1"
  have row: "\<forall>x \<in> set (b_board b ! nat r). x = 0 \<or> x = 1 \<or> x = - 1"
    using cv True by (auto simp: cells_valid_def list_all_iff)
  have new: "\<forall>x \<in> set ((b_board b ! nat r)[nat c := v]). x = 0 \<or> x = 1 \<or> x = - 1"
    using row v set_update_subset_insert[of "b_board b ! nat r" "nat c" v] by blast
  have "\<forall>row \<in> set ((b_board b)[nat r := (b_board b ! nat r)[nat c := v]]).
          \<forall>x \<in> set row. x = 0 \<or> x = 1 \<or> x = - 1"
  proof
    fix row assume "row \<in> set ((b_board b)[nat r := (b_board b ! nat r)[nat c := v]])"
    then have "row = (b_board b ! nat r)[nat c := v] \<or> row \<in> set (b_board b)"
      using set_update_subset_insert[of "b_board b" "nat r" "(b_board b ! nat r)[nat c := v]"]
      by blast
    then show "\<forall>x \<in> set row. x = 0 \<or> x = 1 \<or> x = - 1"
      using new cv by (auto simp: cells_valid_def list_all_iff)
  qed
  then show ?thesis
    by (simp add: cells_valid_def set_cell_def list_all_iff)
next
  case False
  assume "cells_valid b"
  then show ?thesis using False by (simp add: cells_valid_def set_cell_def not_less list_update_beyond)
qed

lemma cell_at_set_cell:
  "wf_board b \<Longrightarrow> in_bounds b r c \<Longrightarrow> in_bounds b r' c' \<Longrightarrow>
   cell_at (set_cell b r c v) r' c' = (if r' = r \<and> c' = c then v else cell_at b r' c')"
  by (auto simp: wf_board_def in_bounds_def cell_at_def set_cell_def list_all_length
      nth_list_update)

lemma filter_length_update:
  "j < length xs \<Longrightarrow>
   int (length (filter P (xs[j := v])))
     = int (length (filter P xs)) - (if P (xs ! j) then 1 else 0) + (if P v then 1 else 0)"
proof (induction xs arbitrary: j)
  case Nil
  then show ?case by simp
next
  case (Cons x xs)
  show ?case
  proof (cases j)
    case 0
    then show ?thesis by simp
  next
    case (Suc k)
    then have "k < length xs" using Cons.prems by simp
    from Cons.IH[OF this] show ?thesis using Suc by (auto split: if_splits)
  qed
qed

lemma sum_list_map_update:
  "i < length xs \<Longrightarrow>
   sum_list (map f (xs[i := y])) = sum_list (map f xs) - f (xs ! i) + (f y :: int)"
proof (induction xs arbitrary: i)
  case Nil
  then show ?case by simp
next
  case (Cons x xs)
  then show ?case by (cases i) auto
qed

lemma count_where_set_cell:
  assumes "wf_board b" "in_bounds b r c"
  shows "count_where (set_cell b r c v) P
           = count_where b P - (if P (cell_at b r c) then 1 else 0) + (if P v then 1 else 0)"
proof -
  have r: "nat r < length (b_board b)"
    using assms by (auto simp: wf_board_def in_bounds_def)
  have c: "nat c < length (b_board b ! nat r)"
    using assms r by (auto simp: wf_board_def in_bounds_def list_all_length)
  show ?thesis
    unfolding count_where_def set_cell_def cell_at_def
    using sum_list_map_update[OF r, of "\<lambda>row. int (length (filter P row))"]
      filter_length_update[OF c, of P v]
    by simp
qed

section \<open>Flipping along one direction\<close>

lemma player_value_cases: "player_value p = 0 \<or> player_value p = 1 \<or> player_value p = - 1"
  by (cases p) simp_all

lemma flip_from_invariant:
  assumes dir: "(dr, dc) \<in> set directions"
    and pres: "\<And>b r c. I b \<Longrightarrow> I (set_cell b r c pv)"
    and init: "I b"
  shows "I (flip_from b r c dr dc pv) \<and> b_size (flip_from b r c dr dc pv) = b_size b"
proof -
  have "\<forall>b. b_size b = n \<and> I b \<longrightarrow>
          I (flip_from b r c dr dc pv) \<and> b_size (flip_from b r c dr dc pv) = n" for n
    using dir
  proof (induction r c rule: ray_induct[where n = n])
    case (step r c)
    show ?case
    proof (intro allI impI)
      fix b :: OthelloBoard assume b: "b_size b = n \<and> I b"
      show "I (flip_from b r c dr dc pv) \<and> b_size (flip_from b r c dr dc pv) = n"
      proof (cases "in_bounds b r c \<and> cell_at b r c \<noteq> pv")
        case True
        have "b_size (set_cell b r c pv) = n \<and> I (set_cell b r c pv)"
          using b pres by simp
        then have "I (flip_from (set_cell b r c pv) (r + dr) (c + dc) dr dc pv)
            \<and> b_size (flip_from (set_cell b r c pv) (r + dr) (c + dc) dr dc pv) = n"
          using step True b by (simp add: in_bounds_def)
        then show ?thesis using True by (subst (1 2) flip_from_unfold) simp
      next
        case False
        then show ?thesis using b by (subst (1 2) flip_from_unfold) auto
      qed
    qed
  qed
  then show ?thesis using init by blast
qed

lemma flip_from_wf:
  "(dr, dc) \<in> set directions \<Longrightarrow> wf_board b \<Longrightarrow> wf_board (flip_from b r c dr dc pv)"
  using flip_from_invariant[where I = wf_board] wf_board_set_cell by blast

lemma flip_from_size:
  "(dr, dc) \<in> set directions \<Longrightarrow> b_size (flip_from b r c dr dc pv) = b_size b"
  using flip_from_invariant[where I = "\<lambda>b. True"] by blast

lemma flip_from_cells_valid:
  "(dr, dc) \<in> set directions \<Longrightarrow> pv = 0 \<or> pv = 1 \<or> pv = - 1 \<Longrightarrow> cells_valid b \<Longrightarrow>
   cells_valid (flip_from b r c dr dc pv)"
  using flip_from_invariant[where I = cells_valid and pv = pv] cells_valid_set_cell by blast

lemma flip_from_count_mono:
  assumes dir: "(dr, dc) \<in> set directions" and wf: "wf_board b"
  shows "count_where b (\<lambda>x. x = pv) + (if in_bounds b r c \<and> cell_at b r c \<noteq> pv then 1 else 0)
           \<le> count_where (flip_from b r c dr dc pv) (\<lambda>x. x = pv)"
proof -
  have "\<forall>b. b_size b = n \<and> wf_board b \<longrightarrow>
          count_where b (\<lambda>x. x = pv) + (if in_bounds b r c \<and> cell_at b r c \<noteq> pv then 1 else 0)
            \<le> count_where (flip_from b r c dr dc pv) (\<lambda>x. x = pv)" for n
    using dir
  proof (induction r c rule: ray_induct[where n = n])
    case (step r c)
    show ?case
    proof (intro allI impI)
      fix b :: OthelloBoard assume b: "b_size b = n \<and> wf_board b"
      show "count_where b (\<lambda>x. x = pv) + (if in_bounds b r c \<and> cell_at b r c \<noteq> pv then 1 else 0)
            \<le> count_where (flip_from b r c dr dc pv) (\<lambda>x. x = pv)"
      proof (cases "in_bounds b r c \<and> cell_at b r c \<noteq> pv")
        case True
        let ?b' = "set_cell b r c pv"
        have b': "b_size ?b' = n \<and> wf_board ?b'"
          using b wf_board_set_cell by simp
        have cnt: "count_where ?b' (\<lambda>x. x = pv) = count_where b (\<lambda>x. x = pv) + 1"
          using count_where_set_cell[of b r c pv "\<lambda>x. x = pv"] b True by simp
        have "count_where ?b' (\<lambda>x. x = pv)
                + (if in_bounds ?b' (r + dr) (c + dc) \<and> cell_at ?b' (r + dr) (c + dc) \<noteq> pv then 1 else 0)
              \<le> count_where (flip_from ?b' (r + dr) (c + dc) dr dc pv) (\<lambda>x. x = pv)"
          using step True b b' by (simp add: in_bounds_def)
        then have "count_where b (\<lambda>x. x = pv) + 1
              \<le> count_where (flip_from ?b' (r + dr) (c + dc) dr dc pv) (\<lambda>x. x = pv)"
          using cnt by (simp split: if_splits)
        then show ?thesis using True by (subst flip_from_unfold) simp
      next
        case False
        then show ?thesis by (subst flip_from_unfold) auto
      qed
    qed
  qed
  then show ?thesis using wf by blast
qed

lemma can_flip_empty:
  assumes dir: "(dr, dc) \<in> set directions"
  shows "\<not> can_flip_from b r c dr dc 0 found"
proof -
  have "\<forall>found. \<not> can_flip_from b r c dr dc 0 found"
    using dir
  proof (induction r c rule: ray_induct[where n = "b_size b"])
    case (step r c)
    show ?case
    proof
      fix found
      show "\<not> can_flip_from b r c dr dc 0 found"
        using step by (subst can_flip_from_unfold) (auto simp: in_bounds_def)
    qed
  qed
  then show ?thesis by simp
qed

lemma can_flip_set_cell:
  assumes dir: "(dr, dc) \<in> set directions" and wf: "wf_board b"
    and ib: "in_bounds b r0 c0" and pv: "pv \<noteq> 0"
  shows "can_flip_from b r c dr dc pv True \<Longrightarrow> can_flip_from (set_cell b r0 c0 pv) r c dr dc pv True"
  using dir
proof (induction r c rule: ray_induct[where n = "b_size b"])
  case (step r c)
  assume cf: "can_flip_from b r c dr dc pv True"
  have inb: "in_bounds b r c" and ne: "cell_at b r c \<noteq> 0"
    using cf by (subst (asm) can_flip_from_unfold, simp split: if_splits)+
  show ?case
  proof (cases "r = r0 \<and> c = c0")
    case True
    then show ?thesis
      using inb pv wf ib by (subst can_flip_from_unfold) (simp add: cell_at_set_cell)
  next
    case False
    then have same: "cell_at (set_cell b r0 c0 pv) r c = cell_at b r c"
      using wf ib inb by (auto simp: cell_at_set_cell)
    show ?thesis
    proof (cases "cell_at b r c = pv")
      case True
      then show ?thesis using inb ne same by (subst can_flip_from_unfold) simp
    next
      case False
      then have "can_flip_from b (r + dr) (c + dc) dr dc pv True"
        using cf inb ne by (subst (asm) can_flip_from_unfold) simp
      then have "can_flip_from (set_cell b r0 c0 pv) (r + dr) (c + dc) dr dc pv True"
        using step inb by (simp add: in_bounds_def)
      then show ?thesis using inb ne same False by (subst can_flip_from_unfold) simp
    qed
  qed
qed

lemma flip_from_occupied:
  assumes dir: "(dr, dc) \<in> set directions" and pv: "pv \<noteq> 0" and wf: "wf_board b"
    and cf: "can_flip_from b r c dr dc pv found"
  shows "occupied_cells (flip_from b r c dr dc pv) = occupied_cells b"
proof -
  have "\<forall>b found. b_size b = n \<and> wf_board b \<and> can_flip_from b r c dr dc pv found \<longrightarrow>
          occupied_cells (flip_from b r c dr dc pv) = occupied_cells b" for n
    using dir
  proof (induction r c rule: ray_induct[where n = n])
    case (step r c)
    show ?case
    proof (intro allI impI)
      fix b :: OthelloBoard and found
      assume b: "b_size b = n \<and> wf_board b \<and> can_flip_from b r c dr dc pv found"
      then have cf: "can_flip_from b r c dr dc pv found" by simp
      have inb: "in_bounds b r c" and ne: "cell_at b r c \<noteq> 0"
        using cf by (subst (asm) can_flip_from_unfold, simp split: if_splits)+
      show "occupied_cells (flip_from b r c dr dc pv) = occupied_cells b"
      proof (cases "cell_at b r c = pv")
        case True
        then show ?thesis by (subst flip_from_unfold) simp
      next
        case False
        let ?b' = "set_cell b r c pv"
        have nxt: "can_flip_from b (r + dr) (c + dc) dr dc pv True"
          using cf inb ne False by (subst (asm) can_flip_from_unfold) simp
        have occ: "occupied_cells ?b' = occupied_cells b"
          unfolding occupied_cells_def
          using count_where_set_cell[of b r c pv "\<lambda>x. x \<noteq> player_value EMPTY"] b inb ne pv by simp
        have cf': "can_flip_from ?b' (r + dr) (c + dc) dr dc pv True"
          using can_flip_set_cell[OF dir _ inb pv nxt] b by simp
        have b': "b_size ?b' = n \<and> wf_board ?b'"
          using b wf_board_set_cell by simp
        have rng: "0 \<le> r \<and> r < int n \<and> 0 \<le> c \<and> c < int n"
          using inb b by (simp add: in_bounds_def)
        have "occupied_cells (flip_from ?b' (r + dr) (c + dc) dr dc pv) = occupied_cells ?b'"
          using step[OF rng] b' cf' by blast
        then show ?thesis using inb False occ by (subst flip_from_unfold) simp
      qed
    qed
  qed
  then show ?thesis using wf cf by blast
qed

section \<open>Applying a legal move\<close>

lemma flip_directions_invariant:
  assumes pres: "\<And>b r c. I b \<Longrightarrow> I (set_cell b r c (player_value player))"
  shows "set ds \<subseteq> set directions \<Longrightarrow> I b \<Longrightarrow>
     I (flip_directions b row col player ds) \<and> b_size (flip_directions b row col player ds) = b_size b"
proof (induction ds arbitrary: b)
  case Nil
  then show ?case by simp
next
  case (Cons d ds)
  obtain dr dc where d: "d = (dr, dc)" by (cases d)
  have dir: "(dr, dc) \<in> set directions" using Cons.prems d by simp
  let ?b' = "if can_flip_in_direction b row col dr dc player
             then flip_pieces_in_direction b row col dr dc player else b"
  have "I ?b' \<and> b_size ?b' = b_size b"
    using flip_from_invariant[where I = I and pv = "player_value player", OF dir pres Cons.prems(2)]
      Cons.prems(2)
    by (simp add: flip_pieces_in_direction_def)
  then show ?case
    using Cons.IH[of ?b'] Cons.prems(1) d by simp
qed

lemma flip_directions_wf:
  "set ds \<subseteq> set directions \<Longrightarrow> wf_board b \<Longrightarrow> wf_board (flip_directions b row col player ds)"
  using flip_directions_invariant[where I = wf_board] wf_board_set_cell by blast

lemma flip_directions_size:
  "set ds \<subseteq> set directions \<Longrightarrow> b_size (flip_directions b row col player ds) = b_size b"
  using flip_directions_invariant[where I = "\<lambda>b. True"] by blast

lemma flip_directions_cells_valid:
  "set ds \<subseteq> set directions \<Longrightarrow> cells_valid b \<Longrightarrow>
   cells_valid (flip_directions b row col player ds)"
  using flip_directions_invariant[where I = cells_valid and player = player]
    cells_valid_set_cell player_value_cases by blast

lemma flip_directions_count_mono:
  "set ds \<subseteq> set directions \<Longrightarrow> wf_board b \<Longrightarrow>
   count_where b (\<lambda>x. x = player_value player)
     \<le> count_where (flip_directions b row col player ds) (\<lambda>x. x = player_value player)"
proof (induction ds arbitrary: b)
  case Nil
  then show ?case by simp
next
  case (Cons d ds)
  obtain dr dc where d: "d = (dr, dc)" by (cases d)
  have dir: "(dr, dc) \<in> set directions" using Cons.prems d by simp
  let ?pv = "player_value player"
  let ?b' = "if can_flip_in_direction b row col dr dc player
             then flip_pieces_in_direction b row col dr dc player else b"
  have wf': "wf_board ?b'"
    using flip_from_wf[OF dir Cons.prems(2)] Cons.prems(2) by (simp add: flip_pieces_in_direction_def)
  have "count_where b (\<lambda>x. x = ?pv) \<le> count_where ?b' (\<lambda>x. x = ?pv)"
    using flip_from_count_mono[OF dir Cons.prems(2), of ?pv "row + dr" "col + dc"]
    by (simp add: flip_pieces_in_direction_def split: if_splits)
  moreover have "count_where ?b' (\<lambda>x. x = ?pv)
      \<le> count_where (flip_directions ?b' row col player ds) (\<lambda>x. x = ?pv)"
    using Cons.IH[OF _ wf'] Cons.prems(1) by simp
  ultimately show ?case using d by simp
qed

lemma flip_directions_count_gain:
  "set ds \<subseteq> set directions \<Longrightarrow> wf_board b \<Longrightarrow>
   list_ex (\<lambda>(dr, dc). can_flip_in_direction b row col dr dc player) ds \<Longrightarrow>
   count_where b (\<lambda>x. x = player_value player) + 1
     \<le> count_where (flip_directions b row col player ds) (\<lambda>x. x = player_value player)"
proof (induction ds)
  case Nil
  then show ?case by simp
next
  case (Cons d ds)
  obtain dr dc where d: "d = (dr, dc)" by (cases d)
  have dir: "(dr, dc) \<in> set directions" using Cons.prems d by simp
  have sub: "set ds \<subseteq> set directions" using Cons.prems by simp
  let ?pv = "player_value player"
  show ?case
  proof (cases "can_flip_in_direction b row col dr dc player")
    case True
    let ?b' = "flip_pieces_in_direction b row col dr dc player"
    have cf: "can_flip_from b (row + dr) (col + dc) dr dc ?pv False"
      using True by (simp add: can_flip_in_direction_def)
    have first: "in_bounds b (row + dr) (col + dc) \<and> cell_at b (row + dr) (col + dc) \<noteq> ?pv"
      using cf by (subst (asm) can_flip_from_unfold) (simp split: if_splits)
    have "count_where b (\<lambda>x. x = ?pv) + 1 \<le> count_where ?b' (\<lambda>x. x = ?pv)"
      using flip_from_count_mono[OF dir Cons.prems(2), of ?pv "row + dr" "col + dc"] first
      by (simp add: flip_pieces_in_direction_def)
    moreover have "count_where ?b' (\<lambda>x. x = ?pv)
        \<le> count_where (flip_directions ?b' row col player ds) (\<lambda>x. x = ?pv)"
      using flip_directions_count_mono[OF sub] flip_from_wf[OF dir Cons.prems(2)]
      by (simp add: flip_pieces_in_direction_def)
    ultimately show ?thesis using d True by simp
  next
    case False
    then have "list_ex (\<lambda>(dr, dc). can_flip_in_direction b row col dr dc player) ds"
      using Cons.prems(3) d by simp
    then show ?thesis using Cons.IH[OF sub Cons.prems(2)] d False by simp
  qed
qed

lemma flip_directions_occupied:
  "set ds \<subseteq> set directions \<Longrightarrow> wf_board b \<Longrightarrow> player_value player \<noteq> 0 \<Longrightarrow>
   occupied_cells (flip_directions b row col player ds) = occupied_cells b"
proof (induction ds arbitrary: b)
  case Nil
  then show ?case by simp
next
  case (Cons d ds)
  obtain dr dc where d: "d = (dr, dc)" by (cases d)
  have dir: "(dr, dc) \<in> set directions" using Cons.prems d by simp
  let ?b' = "if can_flip_in_direction b row col dr dc player
             then flip_pieces_in_direction b row col dr dc player else b"
  have wf': "wf_board ?b'"
    using flip_from_wf[OF dir Cons.prems(2)] Cons.prems(2) by (simp add: flip_pieces_in_direction_def)
  have "occupied_cells ?b' = occupied_cells b"
    using flip_from_occupied[OF dir Cons.prems(3) Cons.prems(2)]
    by (simp add: flip_pieces_in_direction_def can_flip_in_direction_def)
  then show ?case
    using Cons.IH[OF _ wf' Cons.prems(3)] Cons.prems(1) d by simp
qed

lemma direction_nonzero: "(dr, dc) \<in> set directions \<Longrightarrow> dr \<noteq> 0 \<or> dc \<noteq> 0"
  by (auto simp: directions_def)

lemma valid_move_player: "is_valid_move b row col player \<Longrightarrow> player_value player \<noteq> 0"
proof
  assume v: "is_valid_move b row col player" and z: "player_value player = 0"
  from v obtain dr dc where dir: "(dr, dc) \<in> set directions"
      and "can_flip_in_direction b row col dr dc player"
    by (auto simp: is_valid_move_def list_ex_iff split: if_splits)
  then show False using can_flip_empty[OF dir] z by (simp add: can_flip_in_direction_def)
qed

lemma can_flip_after_placing:
  assumes wf: "wf_board b" and v: "is_valid_move b row col player"
  shows "list_ex (\<lambda>(dr, dc). can_flip_in_direction
           (set_cell b row col (player_value player)) row col dr dc player) directions"
proof -
  let ?pv = "player_value player"
  let ?b0 = "set_cell b row col ?pv"
  have pv: "?pv \<noteq> 0" using valid_move_player[OF v] .
  have inb: "in_bounds b row col"
    using v by (simp add: is_valid_move_def split: if_splits)
  from v obtain dr dc where dir: "(dr, dc) \<in> set directions"
      and cf: "can_flip_from b (row + dr) (col + dc) dr dc ?pv False"
    by (auto simp: is_valid_move_def list_ex_iff can_flip_in_direction_def split: if_splits)
  have inb1: "in_bounds b (row + dr) (col + dc)"
    and ne: "cell_at b (row + dr) (col + dc) \<noteq> 0"
    and np: "cell_at b (row + dr) (col + dc) \<noteq> ?pv"
    using cf by (subst (asm) can_flip_from_unfold, simp split: if_splits)+
  have nxt: "can_flip_from b (row + dr + dr) (col + dc + dc) dr dc ?pv True"
    using cf inb1 ne np by (subst (asm) can_flip_from_unfold) simp
  have nxt': "can_flip_from ?b0 (row + dr + dr) (col + dc + dc) dr dc ?pv True"
    using can_flip_set_cell[OF dir wf inb pv nxt] .
  have same: "cell_at ?b0 (row + dr) (col + dc) = cell_at b (row + dr) (col + dc)"
    using cell_at_set_cell[OF wf inb inb1] direction_nonzero[OF dir] by auto
  have "can_flip_from ?b0 (row + dr) (col + dc) dr dc ?pv False"
    using inb1 ne np same nxt' by (subst can_flip_from_unfold) simp
  then show ?thesis
    using dir by (auto simp: list_ex_iff can_flip_in_direction_def)
qed

lemma count_cells_where: "count_cells b v = count_where b (\<lambda>x. x = v)"
  by (simp add: count_cells_def count_where_def)

text \<open>
  Claim C6. A legal move makes \<^verbatim>\<open>make_move\<close> return \<^verbatim>\<open>True\<close>, raises the number of cells
  that hold the mover's value by at least 2 (the placed piece and at least one flipped
  piece), and raises the number of occupied cells by exactly 1.
\<close>

theorem legal_move_counts:
  "wf_board b \<Longrightarrow> is_valid_move b row col player \<Longrightarrow>
   fst (make_move b row col player)
   \<and> count_cells b (player_value player) + 2
       \<le> count_cells (snd (make_move b row col player)) (player_value player)
   \<and> occupied_cells (snd (make_move b row col player)) = occupied_cells b + 1"
proof -
  assume wf: "wf_board b" and v: "is_valid_move b row col player"
  let ?pv = "player_value player"
  let ?b0 = "set_cell b row col ?pv"
  have pv: "?pv \<noteq> 0" using valid_move_player[OF v] .
  have inb: "in_bounds b row col" and emp: "cell_at b row col = 0"
    using v by (simp_all add: is_valid_move_def split: if_splits)
  have wf0: "wf_board ?b0" using wf wf_board_set_cell by simp
  have mm: "make_move b row col player = (True, flip_directions ?b0 row col player directions)"
    using v by (simp add: make_move_def)
  have c0: "count_where ?b0 (\<lambda>x. x = ?pv) = count_where b (\<lambda>x. x = ?pv) + 1"
    using count_where_set_cell[OF wf inb, of ?pv "\<lambda>x. x = ?pv"] emp pv by simp
  have o0: "occupied_cells ?b0 = occupied_cells b + 1"
    unfolding occupied_cells_def
    using count_where_set_cell[OF wf inb, of ?pv "\<lambda>x. x \<noteq> player_value EMPTY"] emp pv by simp
  have gain: "count_where ?b0 (\<lambda>x. x = ?pv) + 1
      \<le> count_where (flip_directions ?b0 row col player directions) (\<lambda>x. x = ?pv)"
    using flip_directions_count_gain[OF _ wf0 can_flip_after_placing[OF wf v]] by simp
  have occ: "occupied_cells (flip_directions ?b0 row col player directions) = occupied_cells ?b0"
    using flip_directions_occupied[OF _ wf0 pv] by simp
  show ?thesis
    using mm c0 o0 gain occ by (simp add: count_cells_where)
qed

section \<open>Reachable boards\<close>

lemma np_setitem_invariant:
  assumes "np_setitem b r c v = Inr b'" and "\<And>i j. I (set_cell b i j v)"
  shows "I b'"
  using assms by (auto simp: np_setitem_def split: option.splits)

lemma init_board_invariant:
  assumes "init_board n = Inr b"
  shows "wf_board b \<and> b_size b = n \<and> cells_valid b"
proof -
  let ?I = "\<lambda>b. wf_board b \<and> b_size b = n \<and> cells_valid b"
  let ?z = "\<lparr>b_size = n, b_board = replicate n (replicate n 0)\<rparr>"
  have z: "?I ?z"
    by (simp add: wf_board_def cells_valid_def list_all_iff)
  have pres: "?I (set_cell b i j v)" if "?I b" "v = 0 \<or> v = 1 \<or> v = - 1" for b i j v
    using that wf_board_set_cell cells_valid_set_cell by simp
  from assms obtain b1 b2 b3 where
      s1: "np_setitem ?z (int n div 2 - 1) (int n div 2 - 1) (player_value WHITE) = Inr b1"
    and s2: "np_setitem b1 (int n div 2 - 1) (int n div 2) (player_value BLACK) = Inr b2"
    and s3: "np_setitem b2 (int n div 2) (int n div 2 - 1) (player_value BLACK) = Inr b3"
    and s4: "np_setitem b3 (int n div 2) (int n div 2) (player_value WHITE) = Inr b"
    by (auto simp: init_board_def setup_initial_position_def Let_def split: sum.splits)
  have "?I b1" using np_setitem_invariant[OF s1, of ?I] pres[OF z] by simp
  then have "?I b2" using np_setitem_invariant[OF s2, of ?I] pres by simp
  then have "?I b3" using np_setitem_invariant[OF s3, of ?I] pres by simp
  then show ?thesis using np_setitem_invariant[OF s4, of ?I] pres by simp
qed

lemma make_move_invariant:
  assumes "wf_board b" "cells_valid b"
  shows "wf_board (snd (make_move b row col player))
     \<and> b_size (snd (make_move b row col player)) = b_size b
     \<and> cells_valid (snd (make_move b row col player))"
proof (cases "is_valid_move b row col player")
  case False
  then show ?thesis using assms by (simp add: make_move_def)
next
  case True
  let ?b0 = "set_cell b row col (player_value player)"
  have "wf_board ?b0" "cells_valid ?b0"
    using assms wf_board_set_cell cells_valid_set_cell player_value_cases by simp_all
  then show ?thesis
    using True flip_directions_wf[of directions ?b0] flip_directions_size[of directions ?b0]
      flip_directions_cells_valid[of directions ?b0]
    by (simp add: make_move_def)
qed

lemma make_move_size: "b_size (snd (make_move b row col player)) = b_size b"
  using flip_directions_size[of directions] by (simp add: make_move_def)

lemma reachable_invariant:
  "reachable n b \<Longrightarrow> wf_board b \<and> b_size b = n \<and> cells_valid b"
proof (induction rule: reachable.induct)
  case (fresh n b)
  then show ?case by (rule init_board_invariant)
next
  case (moved n b row col player)
  then show ?case using make_move_invariant[of b row col player] by simp
qed

text \<open>
  Claim C10. Every board obtained from \<^verbatim>\<open>OthelloBoard(n)\<close> by any sequence of \<^verbatim>\<open>make_move\<close>
  calls keeps its shape, and each of its cells holds the value of \<^verbatim>\<open>Player.EMPTY\<close>,
  \<^verbatim>\<open>Player.BLACK\<close> or \<^verbatim>\<open>Player.WHITE\<close>.
\<close>

theorem reachable_cell_values:
  "reachable n b \<Longrightarrow>
   wf_board b \<and> b_size b = n
   \<and> (\<forall>row \<in> set (b_board b). \<forall>v \<in> set row.
         v = player_value EMPTY \<or> v = player_value BLACK \<or> v = player_value WHITE)"
  using reachable_invariant[of n b] by (simp add: cells_valid_def list_all_iff)

section \<open>The order of the scores\<close>

lemma NegInf_least [simp]: "NegInf \<le> x" "\<not> x < NegInf"
  by (cases x; simp add: less_score_def)+

lemma PosInf_greatest [simp]: "x \<le> PosInf" "\<not> PosInf < x"
  by (cases x; simp add: less_score_def)+

lemma NegInf_less_PosInf [simp]: "NegInf < PosInf"
  by (simp add: less_score_def)

lemma max_NegInf [simp]: "max x NegInf = x" "max NegInf x = x"
  by (simp_all add: max_def antisym)

lemma min_PosInf [simp]: "min x PosInf = x" "min PosInf x = x"
  by (simp_all add: min_def antisym)

lemma unpruned_max_loop_ge:
  "unpruned_max_loop cpu b d cur ms u = Inr V \<Longrightarrow> u \<le> V"
proof (induction ms arbitrary: u)
  case Nil
  then show ?case by simp
next
  case (Cons m ms)
  then show ?case
    by (auto simp: Let_def split: sum.splits dest!: Cons.IH)
qed

lemma unpruned_min_loop_le:
  "unpruned_min_loop cpu b d cur ms u = Inr V \<Longrightarrow> V \<le> u"
proof (induction ms arbitrary: u)
  case Nil
  then show ?case by simp
next
  case (Cons m ms)
  then show ?case
    by (auto simp: Let_def split: sum.splits dest!: Cons.IH)
qed

lemma max_loop_window:
  assumes H: "\<And>b alpha beta mx v. alpha < beta \<Longrightarrow> unpruned_minimax cpu b d mx = Inr v \<Longrightarrow>
                \<exists>r. minimax cpu b d alpha beta mx = Inr r \<and> within_window alpha beta v r"
  shows "u \<le> m \<Longrightarrow> (a0 < m \<longrightarrow> u = m) \<Longrightarrow> a = max a0 m \<Longrightarrow> a < beta \<Longrightarrow>
         unpruned_max_loop cpu b d cur ms u = Inr V \<Longrightarrow>
         \<exists>R. max_loop cpu b d cur ms m a beta = Inr R \<and> within_window a0 beta V R"
proof (induction ms arbitrary: u m a)
  case Nil
  then show ?case by (auto simp: within_window_def)
next
  case (Cons mv ms)
  let ?tb = "snd (make_move b (fst mv) (snd mv) cur)"
  from Cons.prems(5) obtain v where
      uv: "unpruned_minimax cpu ?tb d False = Inr v"
    and rest: "unpruned_max_loop cpu b d cur ms (max u v) = Inr V"
    by (auto simp: Let_def split: sum.splits)
  from H[OF Cons.prems(4) uv] obtain r where
      r: "minimax cpu ?tb d a beta False = Inr r" and w: "within_window a beta v r"
    by blast
  have VV: "max u v \<le> V" using unpruned_max_loop_ge[OF rest] .
  show ?case
  proof (cases "beta \<le> max a r")
    case True
    then have br: "beta \<le> r" using Cons.prems(4) by (auto simp: max_def split: if_splits)
    then have "r \<le> v" using w by (simp add: within_window_def)
    then have rV: "r \<le> V" using VV by (auto simp: max_def split: if_splits)
    have mr: "max m r = r" using Cons.prems(3,4) br by (auto simp: max_def split: if_splits)
    have "within_window a0 beta V r"
      using br rV Cons.prems(3,4) by (auto simp: within_window_def max_def split: if_splits)
    then show ?thesis using r True mr by (simp add: Let_def)
  next
    case False
    then have rb: "r < beta" by (auto simp: max_def split: if_splits)
    have vr: "v \<le> r" using w rb by (cases "r \<le> a") (auto simp: within_window_def)
    have p1: "max u v \<le> max m r" using Cons.prems(1) vr by (auto simp: max_def)
    have p2: "a0 < max m r \<longrightarrow> max u v = max m r"
      using Cons.prems(1,2,3) vr w rb by (auto simp: within_window_def max_def split: if_splits)
    have p3: "max a r = max a0 (max m r)"
      using Cons.prems(3) by (simp add: max.assoc)
    have p4: "max a r < beta" using False by (simp only: not_le)
    from Cons.IH[OF p1 p2 p3 p4 rest] show ?thesis
      using r False by (simp add: Let_def)
  qed
qed

lemma min_loop_window:
  assumes H: "\<And>b alpha beta mx v. alpha < beta \<Longrightarrow> unpruned_minimax cpu b d mx = Inr v \<Longrightarrow>
                \<exists>r. minimax cpu b d alpha beta mx = Inr r \<and> within_window alpha beta v r"
  shows "m \<le> u \<Longrightarrow> (m < b0 \<longrightarrow> u = m) \<Longrightarrow> bt = min b0 m \<Longrightarrow> alpha < bt \<Longrightarrow>
         unpruned_min_loop cpu b d cur ms u = Inr V \<Longrightarrow>
         \<exists>R. min_loop cpu b d cur ms m alpha bt = Inr R \<and> within_window alpha b0 V R"
proof (induction ms arbitrary: u m bt)
  case Nil
  then show ?case by (auto simp: within_window_def)
next
  case (Cons mv ms)
  let ?tb = "snd (make_move b (fst mv) (snd mv) cur)"
  from Cons.prems(5) obtain v where
      uv: "unpruned_minimax cpu ?tb d True = Inr v"
    and rest: "unpruned_min_loop cpu b d cur ms (min u v) = Inr V"
    by (auto simp: Let_def split: sum.splits)
  from H[OF Cons.prems(4) uv] obtain r where
      r: "minimax cpu ?tb d alpha bt True = Inr r" and w: "within_window alpha bt v r"
    by blast
  have VV: "V \<le> min u v" using unpruned_min_loop_le[OF rest] .
  show ?case
  proof (cases "min bt r \<le> alpha")
    case True
    then have br: "r \<le> alpha" using Cons.prems(4) by (auto simp: min_def split: if_splits)
    then have "v \<le> r" using w by (simp add: within_window_def)
    then have rV: "V \<le> r" using VV by (auto simp: min_def split: if_splits)
    have mr: "min m r = r" using Cons.prems(3,4) br by (auto simp: min_def split: if_splits)
    have "within_window alpha b0 V r"
      using br rV Cons.prems(3,4) by (auto simp: within_window_def min_def split: if_splits)
    then show ?thesis using r True mr by (simp add: Let_def)
  next
    case False
    then have rb: "alpha < r" by (auto simp: min_def split: if_splits)
    have vr: "r \<le> v" using w rb by (cases "bt \<le> r") (auto simp: within_window_def)
    have p1: "min m r \<le> min u v" using Cons.prems(1) vr by (auto simp: min_def)
    have p2: "min m r < b0 \<longrightarrow> min u v = min m r"
      using Cons.prems(1,2,3) vr w rb by (auto simp: within_window_def min_def split: if_splits)
    have p3: "min bt r = min b0 (min m r)"
      using Cons.prems(3) by (simp add: min.assoc)
    have p4: "alpha < min bt r" using False by (simp only: not_le)
    from Cons.IH[OF p1 p2 p3 p4 rest] show ?thesis
      using r False by (simp add: Let_def)
  qed
qed

section \<open>The window of the pruned search\<close>

lemma minimax_window:
  "alpha < beta \<Longrightarrow> unpruned_minimax cpu b d mx = Inr v \<Longrightarrow>
   \<exists>r. minimax cpu b d alpha beta mx = Inr r \<and> within_window alpha beta v r"
proof (induction d arbitrary: b alpha beta mx v)
  case 0
  then show ?case
    by (subst minimax.simps, subst (asm) unpruned_minimax.simps)
       (auto simp: within_window_def split: sum.splits)
next
  case (Suc d)
  show ?case
  proof (cases "is_game_over b")
    case True
    then show ?thesis using Suc.prems
      by (subst minimax.simps, subst (asm) unpruned_minimax.simps)
         (auto simp: within_window_def split: sum.splits)
  next
    case False
    let ?cur = "if mx then cpu_player cpu else cpu_opponent cpu"
    let ?vm = "get_valid_moves b ?cur"
    show ?thesis
    proof (cases "?vm = []")
      case True
      have u: "unpruned_minimax cpu b d (\<not> mx) = Inr v"
        using Suc.prems(2) False True by (subst (asm) unpruned_minimax.simps) (simp add: Let_def)
      have "minimax cpu b (Suc d) alpha beta mx = minimax cpu b d alpha beta (\<not> mx)"
        using False True by (subst minimax.simps) (simp add: Let_def)
      then show ?thesis using Suc.IH[OF Suc.prems(1) u] by simp
    next
      case nonempty: False
      show ?thesis
      proof (cases mx)
        case True
        have u: "unpruned_max_loop cpu b d ?cur ?vm NegInf = Inr v"
          using Suc.prems(2) False nonempty True by (subst (asm) unpruned_minimax.simps) (simp add: Let_def)
        have m: "minimax cpu b (Suc d) alpha beta mx = max_loop cpu b d ?cur ?vm NegInf alpha beta"
          using False nonempty True by (subst minimax.simps) (simp add: Let_def)
        have "\<exists>R. max_loop cpu b d ?cur ?vm NegInf alpha beta = Inr R \<and> within_window alpha beta v R"
          using max_loop_window[where cpu = cpu and d = d and u = NegInf and m = NegInf
              and a = alpha and ?a0.0 = alpha and beta = beta, OF Suc.IH _ _ _ Suc.prems(1) u]
          by simp
        then show ?thesis using m by simp
      next
        case mn: False
        have u: "unpruned_min_loop cpu b d ?cur ?vm PosInf = Inr v"
          using Suc.prems(2) False nonempty mn by (subst (asm) unpruned_minimax.simps) (simp add: Let_def)
        have m: "minimax cpu b (Suc d) alpha beta mx = min_loop cpu b d ?cur ?vm PosInf alpha beta"
          using False nonempty mn by (subst minimax.simps) (simp add: Let_def)
        have "\<exists>R. min_loop cpu b d ?cur ?vm PosInf alpha beta = Inr R \<and> within_window alpha beta v R"
          using min_loop_window[where cpu = cpu and d = d and u = PosInf and m = PosInf
              and bt = beta and ?b0.0 = beta and alpha = alpha, OF Suc.IH _ _ _ Suc.prems(1) u]
          by simp
        then show ?thesis using m by simp
      qed
    qed
  qed
qed

lemma minimax_full_window:
  assumes "unpruned_minimax cpu b d mx = Inr v"
  shows "minimax cpu b d NegInf PosInf mx = Inr v"
proof -
  from minimax_window[OF NegInf_less_PosInf assms] obtain r where
      r: "minimax cpu b d NegInf PosInf mx = Inr r" and w: "within_window NegInf PosInf v r"
    by blast
  have "r = v"
  proof (cases r)
    case NegInf
    then show ?thesis using w by (simp add: within_window_def antisym)
  next
    case (Num x)
    then have "NegInf < r \<and> r < PosInf" by (simp add: less_score_def)
    then show ?thesis using w by (simp add: within_window_def)
  next
    case PosInf
    then show ?thesis using w by (simp add: within_window_def antisym)
  qed
  then show ?thesis using r by simp
qed

lemma minimax_move_loop_unpruned:
  "unpruned_move_loop cpu b ms bm bs = Inr mv \<Longrightarrow> minimax_move_loop cpu b ms bm bs = Inr mv"
proof (induction ms arbitrary: bm bs)
  case Nil
  then show ?case by simp
next
  case (Cons m ms)
  let ?tb = "snd (make_move b (fst m) (snd m) (cpu_player cpu))"
  from Cons.prems obtain v where
      uv: "unpruned_minimax cpu ?tb (nat (cpu_difficulty cpu - 1)) False = Inr v"
    by (auto simp: Let_def split: sum.splits)
  have r: "minimax cpu ?tb (nat (cpu_difficulty cpu - 1)) NegInf PosInf False = Inr v"
    using minimax_full_window[OF uv] .
  show ?case
    using Cons.prems uv r Cons.IH by (auto simp: Let_def split: if_splits)
qed

lemma get_move_unpruned:
  assumes "3 \<le> cpu_difficulty cpu" "unpruned_get_move cpu b = Inr mv"
  shows "get_move cpu b rnd = Inr mv"
proof (cases "get_valid_moves b (cpu_player cpu)")
  case Nil
  then show ?thesis using assms by (simp add: unpruned_get_move_def get_move_def)
next
  case (Cons m0 ms)
  from assms(2) Cons obtain m where
      u: "unpruned_move_loop cpu b (m0 # ms) m0 NegInf = Inr m" and mv: "mv = Some m"
    by (auto simp: unpruned_get_move_def split: sum.splits)
  have "minimax_move_loop cpu b (m0 # ms) m0 NegInf = Inr m"
    using minimax_move_loop_unpruned[OF u] .
  then show ?thesis
    using assms(1) Cons mv by (simp add: get_move_def get_minimax_move_def)
qed

section \<open>The searches return on boards of size at most 8\<close>

lemma position_values_shape:
  "length position_values = 8 \<and> list_all (\<lambda>row. length row = 8) position_values"
  by (simp add: position_values_def)

lemma position_value_total:
  "row < 8 \<Longrightarrow> col < 8 \<Longrightarrow> \<exists>w. position_value row col = Inr w"
  using position_values_shape by (simp add: position_value_def list_all_length)

lemma position_step_total:
  "row < 8 \<Longrightarrow> col < 8 \<Longrightarrow> \<exists>s. position_step cpu b row col acc = Inr s"
  using position_value_total[of row col] by (auto simp: position_step_def)

lemma position_cols_total:
  "row < 8 \<Longrightarrow> \<forall>col \<in> set cols. col < 8 \<Longrightarrow> \<exists>s. position_cols cpu b row cols acc = Inr s"
proof (induction cols arbitrary: acc)
  case Nil
  then show ?case by simp
next
  case (Cons col cols)
  from position_step_total[of row col cpu b acc] Cons.prems obtain s where
    "position_step cpu b row col acc = Inr s" by auto
  then show ?case using Cons.IH[of s] Cons.prems by simp
qed

lemma position_rows_total:
  "b_size b \<le> 8 \<Longrightarrow> \<forall>row \<in> set rows. row < 8 \<Longrightarrow> \<exists>s. position_rows cpu b rows acc = Inr s"
proof (induction rows arbitrary: acc)
  case Nil
  then show ?case by simp
next
  case (Cons row rows)
  from position_cols_total[of row "[0..<b_size b]" cpu b acc] Cons.prems obtain s where
    "position_cols cpu b row [0..<b_size b] acc = Inr s" by auto
  then show ?case using Cons.IH[of s] Cons.prems by simp
qed

lemma evaluate_board_total:
  assumes "b_size b \<le> 8"
  shows "\<exists>v. evaluate_board cpu b = Inr v"
proof -
  from position_rows_total[OF assms, of "[0..<b_size b]" cpu 0] assms obtain s where
    "position_rows cpu b [0..<b_size b] 0 = Inr s" by auto
  then show ?thesis
    by (simp add: evaluate_board_def heuristic_score_def Let_def split: prod.splits)
qed

lemma unpruned_total:
  "b_size b \<le> 8 \<Longrightarrow> \<exists>v. unpruned_minimax cpu b d mx = Inr v"
proof (induction d arbitrary: b mx)
  case 0
  from evaluate_board_total[OF 0, of cpu] obtain v where "evaluate_board cpu b = Inr v" ..
  then have "unpruned_minimax cpu b 0 mx = Inr (Num v)"
    by (subst unpruned_minimax.simps) simp
  then show ?case ..
next
  case (Suc d)
  have maxl: "\<exists>v. unpruned_max_loop cpu b d cur ms u = Inr v" for cur ms u
  proof (induction ms arbitrary: u)
    case Nil
    show ?case by simp
  next
    case (Cons m ms)
    have "b_size (snd (make_move b (fst m) (snd m) cur)) \<le> 8"
      using Suc.prems by (simp add: make_move_size)
    from Suc.IH[OF this, of False] obtain v where
      v: "unpruned_minimax cpu (snd (make_move b (fst m) (snd m) cur)) d False = Inr v" ..
    from Cons.IH[of "max u v"] show ?case using v by (simp add: Let_def)
  qed
  have minl: "\<exists>v. unpruned_min_loop cpu b d cur ms u = Inr v" for cur ms u
  proof (induction ms arbitrary: u)
    case Nil
    show ?case by simp
  next
    case (Cons m ms)
    have "b_size (snd (make_move b (fst m) (snd m) cur)) \<le> 8"
      using Suc.prems by (simp add: make_move_size)
    from Suc.IH[OF this, of True] obtain v where
      v: "unpruned_minimax cpu (snd (make_move b (fst m) (snd m) cur)) d True = Inr v" ..
    from Cons.IH[of "min u v"] show ?case using v by (simp add: Let_def)
  qed
  let ?cur = "if mx then cpu_player cpu else cpu_opponent cpu"
  show ?case
  proof (cases "is_game_over b")
    case True
    from evaluate_board_total[OF Suc.prems, of cpu] obtain v where "evaluate_board cpu b = Inr v" ..
    then have "unpruned_minimax cpu b (Suc d) mx = Inr (Num v)"
      using True by (subst unpruned_minimax.simps) simp
    then show ?thesis ..
  next
    case False
    show ?thesis
    proof (cases "get_valid_moves b ?cur = []")
      case True
      have "unpruned_minimax cpu b (Suc d) mx = unpruned_minimax cpu b d (\<not> mx)"
        using False True by (subst unpruned_minimax.simps) (simp add: Let_def)
      then show ?thesis using Suc.IH[OF Suc.prems, of "\<not> mx"] by simp
    next
      case nonempty: False
      show ?thesis
      proof (cases mx)
        case True
        have "unpruned_minimax cpu b (Suc d) mx
                = unpruned_max_loop cpu b d ?cur (get_valid_moves b ?cur) NegInf"
          using False nonempty True by (subst unpruned_minimax.simps) (simp add: Let_def)
        then show ?thesis using maxl by simp
      next
        case mn: False
        have "unpruned_minimax cpu b (Suc d) mx
                = unpruned_min_loop cpu b d ?cur (get_valid_moves b ?cur) PosInf"
          using False nonempty mn by (subst unpruned_minimax.simps) (simp add: Let_def)
        then show ?thesis using minl by simp
      qed
    qed
  qed
qed

section \<open>Pruning does not change the move\<close>

lemma unpruned_move_loop_total:
  "b_size b \<le> 8 \<Longrightarrow> \<exists>m. unpruned_move_loop cpu b ms bm bs = Inr m"
proof (induction ms arbitrary: bm bs)
  case Nil
  show ?case by simp
next
  case (Cons m ms)
  let ?tb = "snd (make_move b (fst m) (snd m) (cpu_player cpu))"
  have "b_size ?tb \<le> 8"
    using Cons.prems by (simp add: make_move_size)
  from unpruned_total[OF this, of cpu "nat (cpu_difficulty cpu - 1)" False] obtain v where
    v: "unpruned_minimax cpu ?tb (nat (cpu_difficulty cpu - 1)) False = Inr v" ..
  show ?case
  proof (cases "bs < v")
    case True
    then show ?thesis using v Cons.IH[OF Cons.prems, of m v] by (simp add: Let_def)
  next
    case False
    then show ?thesis using v Cons.IH[OF Cons.prems, of bm bs] by (simp add: Let_def)
  qed
qed

lemma unpruned_get_move_total:
  assumes "b_size b \<le> 8"
  shows "\<exists>mv. unpruned_get_move cpu b = Inr mv"
proof (cases "get_valid_moves b (cpu_player cpu)")
  case Nil
  then show ?thesis by (simp add: unpruned_get_move_def)
next
  case (Cons m0 ms)
  from unpruned_move_loop_total[OF assms, of cpu "m0 # ms" m0 NegInf] obtain m where
    "unpruned_move_loop cpu b (m0 # ms) m0 NegInf = Inr m" ..
  then have "unpruned_get_move cpu b = Inr (Some m)"
    using Cons by (simp add: unpruned_get_move_def)
  then show ?thesis ..
qed

text \<open>
  Claim C1. At difficulty 3 or more, \<^verbatim>\<open>get_move\<close> (minimax with alpha-beta pruning) returns
  what the unpruned minimax of the same depth returns, with the same choice of the first
  strictly best move over the same move order: on a board of size at most 8 the unpruned
  search returns a result and \<^verbatim>\<open>get_move\<close> returns the same one, and on any board, whenever
  the unpruned search returns a result, \<^verbatim>\<open>get_move\<close> returns the same one.
\<close>

theorem pruning_preserves_move:
  assumes "wf_board b" and "3 \<le> cpu_difficulty cpu"
  shows "(b_size b \<le> 8 \<longrightarrow>
            (\<exists>mv. unpruned_get_move cpu b = Inr mv \<and> get_move cpu b rnd = Inr mv))
         \<and> (\<forall>mv. unpruned_get_move cpu b = Inr mv \<longrightarrow> get_move cpu b rnd = Inr mv)"
proof (intro conjI impI allI)
  assume "b_size b \<le> 8"
  from unpruned_get_move_total[OF this, of cpu] obtain mv where
    mv: "unpruned_get_move cpu b = Inr mv" ..
  from get_move_unpruned[OF assms(2) mv, of rnd] mv
  show "\<exists>mv. unpruned_get_move cpu b = Inr mv \<and> get_move cpu b rnd = Inr mv" by blast
next
  fix mv assume "unpruned_get_move cpu b = Inr mv"
  from get_move_unpruned[OF assms(2) this, of rnd]
  show "get_move cpu b rnd = Inr mv" .
qed

theorem pruning_preserves_move_witness:
  "wf_board initial_4 \<and> (3::int) \<le> cpu_difficulty (init_cpu BLACK 3)
   \<and> b_size initial_4 \<le> 8
   \<and> (\<exists>mv. unpruned_get_move (init_cpu BLACK 3) initial_4 = Inr mv
          \<and> get_move (init_cpu BLACK 3) initial_4 0 = Inr mv)"
proof -
  have h1: "wf_board initial_4"
    unfolding initial_4_def by code_simp
  have h2: "(3::int) \<le> cpu_difficulty (init_cpu BLACK 3)"
    by (simp add: init_cpu_def)
  have h3: "b_size initial_4 \<le> 8"
    by (simp add: initial_4_def)
  from pruning_preserves_move[OF h1 h2, of 0] h3
  have "\<exists>mv. unpruned_get_move (init_cpu BLACK 3) initial_4 = Inr mv
          \<and> get_move (init_cpu BLACK 3) initial_4 0 = Inr mv" by blast
  then show ?thesis using h1 h2 h3 by blast
qed

section \<open>The range of the heuristic score\<close>

lemma sum_list_mono_on:
  "(\<And>x. x \<in> set xs \<Longrightarrow> f x \<le> (g x :: int)) \<Longrightarrow> sum_list (map f xs) \<le> sum_list (map g xs)"
  by (induction xs) (auto intro: add_mono)

lemma grid_sum_mono:
  "(\<And>r c. r < n \<Longrightarrow> c < n \<Longrightarrow> f r c \<le> g r c) \<Longrightarrow> grid_sum n f \<le> grid_sum n g"
  unfolding grid_sum_def by (intro sum_list_mono_on) simp

lemma sum_list_combine:
  "a * sum_list (map f xs) - a * sum_list (map g xs) + sum_list (map h xs) + k * sum_list (map e xs)
     = sum_list (map (\<lambda>x. a * f x - a * g x + h x + k * e x) xs)" for a k :: int
  by (induction xs) (simp_all add: algebra_simps)

lemma grid_sum_combine:
  "a * grid_sum n f - a * grid_sum n g + grid_sum n h + k * grid_sum n e
     = grid_sum n (\<lambda>r c. a * f r c - a * g r c + h r c + k * e r c)"
  unfolding grid_sum_def by (simp add: sum_list_combine)

lemma sum_list_nth_conv:
  "sum_list (map f xs) = sum_list (map (\<lambda>i. f (xs ! i)) [0..<length xs])" for f :: "'a \<Rightarrow> int"
proof -
  have "map f xs = map f (map ((!) xs) [0..<length xs])" by (simp only: map_nth)
  then show ?thesis by (simp add: comp_def)
qed

lemma length_filter_sum:
  "int (length (filter P xs)) = sum_list (map (\<lambda>x. if P x then 1 else 0) xs)"
  by (induction xs) simp_all

lemma count_where_grid:
  assumes "wf_board b"
  shows "count_where b P
           = grid_sum (b_size b) (\<lambda>r c. if P (cell_at b (int r) (int c)) then 1 else 0)"
proof -
  let ?n = "b_size b"
  have len: "length (b_board b) = ?n" using assms by (simp add: wf_board_def)
  have rows: "\<And>r. r < ?n \<Longrightarrow> length (b_board b ! r) = ?n"
    using assms by (simp add: wf_board_def list_all_length)
  have "count_where b P
          = sum_list (map (\<lambda>r. int (length (filter P (b_board b ! r)))) [0..<?n])"
    unfolding count_where_def
    using sum_list_nth_conv[of "\<lambda>row. int (length (filter P row))" "b_board b"] len by simp
  also have "\<dots> = sum_list (map (\<lambda>r. sum_list (map
                 (\<lambda>c. if P (b_board b ! r ! c) then 1 else 0) [0..<?n])) [0..<?n])"
  proof (rule arg_cong[where f = sum_list], rule map_cong[OF refl])
    fix r assume "r \<in> set [0..<?n]"
    then have r: "length (b_board b ! r) = ?n" using rows by simp
    show "int (length (filter P (b_board b ! r)))
            = sum_list (map (\<lambda>c. if P (b_board b ! r ! c) then 1 else 0) [0..<?n])"
      using sum_list_nth_conv[of "\<lambda>x. if P x then 1 else 0" "b_board b ! r"] r
      by (simp add: length_filter_sum)
  qed
  finally show ?thesis by (simp add: grid_sum_def cell_at_def)
qed

lemma position_value_eq:
  "row < 8 \<Longrightarrow> col < 8 \<Longrightarrow> position_value row col = Inr (position_values ! row ! col)"
  using position_values_shape by (simp add: position_value_def list_all_length)

lemma position_step_eq:
  "row < 8 \<Longrightarrow> col < 8 \<Longrightarrow>
   position_step cpu b row col acc = Inr (acc + position_term cpu b row col)"
  by (simp add: position_step_def position_term_def position_value_eq)

lemma position_cols_eq:
  "row < 8 \<Longrightarrow> \<forall>col \<in> set cols. col < 8 \<Longrightarrow>
   position_cols cpu b row cols acc = Inr (acc + sum_list (map (position_term cpu b row) cols))"
  by (induction cols arbitrary: acc) (simp_all add: position_step_eq)

lemma position_rows_eq:
  "b_size b \<le> 8 \<Longrightarrow> \<forall>row \<in> set rows. row < 8 \<Longrightarrow>
   position_rows cpu b rows acc
     = Inr (acc + sum_list (map (\<lambda>row. sum_list (map (position_term cpu b row) [0..<b_size b])) rows))"
  by (induction rows arbitrary: acc) (simp_all add: position_cols_eq)

lemma position_rows_grid:
  "b_size b \<le> 8 \<Longrightarrow>
   position_rows cpu b [0..<b_size b] 0 = Inr (grid_sum (b_size b) (position_term cpu b))"
  using position_rows_eq[of b "[0..<b_size b]" cpu 0] by (simp add: grid_sum_def)

lemma length_concat_le:
  "(\<And>x. x \<in> set xs \<Longrightarrow> int (length (f x)) \<le> g x) \<Longrightarrow>
   int (length (concat (map f xs))) \<le> sum_list (map g xs)"
  by (induction xs) (auto intro: add_mono)

lemma valid_moves_le_empty:
  "int (length (get_valid_moves b player))
     \<le> grid_sum (b_size b) (\<lambda>r c. if cell_at b (int r) (int c) = 0 then 1 else 0)"
  unfolding get_valid_moves_def grid_sum_def
  by (intro length_concat_le) (auto simp: is_valid_move_def)

lemma cell_bound_total: "grid_sum 8 cell_bound = 1232"
  unfolding grid_sum_def cell_bound_def position_values_def
  by (simp add: upt_rec[of _ 8] upt_rec[of _ 7] upt_rec[of _ 6] upt_rec[of _ 5] upt_rec[of _ 4]
      upt_rec[of _ 3] upt_rec[of _ 2] upt_rec[of _ 1] eval_nat_numeral)

lemma grid_sum_uminus: "grid_sum n (\<lambda>r c. - f r c) = - grid_sum n f"
proof -
  have neg: "sum_list (map (\<lambda>x. - g x) xs) = - sum_list (map g xs)" for g :: "nat \<Rightarrow> int" and xs
    by (induction xs) simp_all
  show ?thesis
    unfolding grid_sum_def by (simp add: neg)
qed

lemma abs_bound_arith:
  fixes A B P E mp mo K :: int
  assumes "10 * A - 10 * B + P + 5 * E \<le> K" "10 * B - 10 * A + - P + 5 * E \<le> K"
    and "mp \<le> E" "mo \<le> E" "0 \<le> mp" "0 \<le> mo"
  shows "\<bar>10 * A - 10 * B + P + 5 * (mp - mo)\<bar> \<le> K"
  using assms by (simp add: abs_le_iff)

lemma valid_moves_nonneg: "0 \<le> int (length (get_valid_moves b player))"
  by simp

lemma heuristic_score_bounds:
  assumes wf: "wf_board b" and sz: "b_size b = 8" and pl: "player = BLACK \<or> player = WHITE"
  shows "\<exists>h. heuristic_score (init_cpu player d) b = Inr h \<and> \<bar>h\<bar> \<le> 1232"
proof -
  let ?cpu = "init_cpu player d"
  let ?pv = "player_value (cpu_player ?cpu)"
  let ?ov = "player_value (cpu_opponent ?cpu)"
  let ?own = "\<lambda>r c. if cell_at b (int r) (int c) = ?pv then 1 else (0::int)"
  let ?opp = "\<lambda>r c. if cell_at b (int r) (int c) = ?ov then 1 else (0::int)"
  let ?emp = "\<lambda>r c. if cell_at b (int r) (int c) = 0 then 1 else (0::int)"
  let ?P = "grid_sum 8 (position_term ?cpu b)"
  let ?mp = "int (length (get_valid_moves b (cpu_player ?cpu)))"
  let ?mo = "int (length (get_valid_moves b (cpu_opponent ?cpu)))"
  have vals: "?pv \<noteq> 0" "?ov \<noteq> 0" "?pv \<noteq> ?ov"
    using pl by (auto simp: init_cpu_def)
  have cp: "count_where b (\<lambda>x. x = ?pv) = grid_sum 8 ?own"
    using count_where_grid[OF wf, of "\<lambda>x. x = ?pv"] sz by simp
  have co: "count_where b (\<lambda>x. x = ?ov) = grid_sum 8 ?opp"
    using count_where_grid[OF wf, of "\<lambda>x. x = ?ov"] sz by simp
  have diff: "(fst (get_score b) - snd (get_score b)) * (if cpu_player ?cpu = BLACK then 1 else - 1)
                = grid_sum 8 ?own - grid_sum 8 ?opp"
    using pl cp co by (auto simp: get_score_def count_cells_where init_cpu_def)
  have pos: "position_rows ?cpu b [0..<b_size b] 0 = Inr ?P"
    using position_rows_grid[of b ?cpu] sz by simp
  define D where "D = (fst (get_score b) - snd (get_score b))
                         * (if cpu_player ?cpu = BLACK then 1 else - 1)"
  have raw: "heuristic_score ?cpu b = Inr (D * 10 + ?P + (?mp - ?mo) * 5)"
    using pos by (simp add: heuristic_score_def Let_def D_def split: prod.splits)
  have "D * 10 + ?P + (?mp - ?mo) * 5
          = 10 * grid_sum 8 ?own - 10 * grid_sum 8 ?opp + ?P + 5 * (?mp - ?mo)"
    using diff unfolding D_def[symmetric] by (simp add: algebra_simps)
  then have h: "heuristic_score ?cpu b
             = Inr (10 * grid_sum 8 ?own - 10 * grid_sum 8 ?opp + ?P + 5 * (?mp - ?mo))"
    using raw by simp
  have mp: "?mp \<le> grid_sum 8 ?emp"
    using valid_moves_le_empty[of b "cpu_player ?cpu"] sz by simp
  have mo: "?mo \<le> grid_sum 8 ?emp"
    using valid_moves_le_empty[of b "cpu_opponent ?cpu"] sz by simp
  have upper_pt: "10 * ?own r c - 10 * ?opp r c + position_term ?cpu b r c + 5 * ?emp r c
                    \<le> cell_bound r c" for r c
    using vals by (auto simp: position_term_def cell_bound_def max_def abs_if)
  have lower_pt: "10 * ?opp r c - 10 * ?own r c + - position_term ?cpu b r c + 5 * ?emp r c
                    \<le> cell_bound r c" for r c
    using vals by (auto simp: position_term_def cell_bound_def max_def abs_if)
  have upper: "10 * grid_sum 8 ?own - 10 * grid_sum 8 ?opp + ?P + 5 * grid_sum 8 ?emp \<le> 1232"
    using grid_sum_mono[of 8 "\<lambda>r c. 10 * ?own r c - 10 * ?opp r c + position_term ?cpu b r c
                                  + 5 * ?emp r c" cell_bound] upper_pt
    by (simp only: grid_sum_combine cell_bound_total[symmetric])
  have lower: "10 * grid_sum 8 ?opp - 10 * grid_sum 8 ?own + - ?P + 5 * grid_sum 8 ?emp \<le> 1232"
    using grid_sum_mono[of 8 "\<lambda>r c. 10 * ?opp r c - 10 * ?own r c + - position_term ?cpu b r c
                                  + 5 * ?emp r c" cell_bound] lower_pt
    by (simp only: grid_sum_combine grid_sum_uminus[symmetric] cell_bound_total[symmetric])
  have "\<bar>10 * grid_sum 8 ?own - 10 * grid_sum 8 ?opp + ?P + 5 * (?mp - ?mo)\<bar> \<le> 1232"
    by (rule abs_bound_arith[OF upper lower mp mo valid_moves_nonneg valid_moves_nonneg])
  then show ?thesis using h by simp
qed

text \<open>
  Claim C4, amended. On every well-formed 8 by 8 board that is not terminal, and for the
  player Black or White, the evaluator returns a heuristic score whose absolute value is
  at most 1232, the sum over the table of \<open>max 5 \<bar>10 + weight\<bar>\<close>. (The bound 1000 of the
  claim does not hold: the score of \<open>heavy_8\<close> is 1212.)
\<close>

theorem heuristic_bound:
  "wf_board b \<Longrightarrow> b_size b = 8 \<Longrightarrow> \<not> is_game_over b \<Longrightarrow> player = BLACK \<or> player = WHITE \<Longrightarrow>
   \<exists>h. evaluate_board (init_cpu player d) b = Inr h \<and> \<bar>h\<bar> \<le> 1232"
  using heuristic_score_bounds[of b player d] by (simp add: evaluate_board_def)

section \<open>Legal moves of the opening position\<close>

lemma init_board_8: "init_board 8 = Inr initial_8"
  unfolding initial_8_def by code_simp

text \<open>
  Claim C9. On the freshly constructed 8 by 8 board Black's legal moves are exactly
  (2,3), (3,2), (4,5), (5,4) and White's are exactly (2,4), (3,5), (4,2), (5,3).
\<close>

theorem initial_legal_moves:
  "\<exists>b. init_board 8 = Inr b
     \<and> set (get_valid_moves b BLACK) = {(2, 3), (3, 2), (4, 5), (5, 4)}
     \<and> set (get_valid_moves b WHITE) = {(2, 4), (3, 5), (4, 2), (5, 3)}"
proof -
  have black: "get_valid_moves initial_8 BLACK = [(2, 3), (3, 2), (4, 5), (5, 4)]"
    unfolding initial_8_def by code_simp
  have white: "get_valid_moves initial_8 WHITE = [(2, 4), (3, 5), (4, 2), (5, 3)]"
    unfolding initial_8_def by code_simp
  show ?thesis
    using init_board_8 black white by simp
qed

section \<open>Illegal moves\<close>

text \<open>
  Claim C5. A move that is out of bounds, onto an occupied cell, or that can flip in none
  of the eight directions makes \<^verbatim>\<open>make_move\<close> return \<^verbatim>\<open>False\<close> and leaves the board as it
  was.
\<close>

theorem make_move_illegal:
  "\<not> in_bounds b row col \<or> cell_at b row col \<noteq> player_value EMPTY
     \<or> \<not> list_ex (\<lambda>(dr, dc). can_flip_in_direction b row col dr dc player) directions
   \<Longrightarrow> make_move b row col player = (False, b)"
  by (auto simp: make_move_def is_valid_move_def)

theorem make_move_illegal_witness:
  "\<not> in_bounds initial_8 8 8 \<and> make_move initial_8 8 8 BLACK = (False, initial_8)
   \<and> cell_at initial_8 3 3 \<noteq> player_value EMPTY
   \<and> make_move initial_8 3 3 BLACK = (False, initial_8)
   \<and> \<not> list_ex (\<lambda>(dr, dc). can_flip_in_direction initial_8 0 0 dr dc BLACK) directions
   \<and> make_move initial_8 0 0 BLACK = (False, initial_8)"
proof -
  have h1: "\<not> in_bounds initial_8 8 8"
    unfolding initial_8_def by code_simp
  have h2: "cell_at initial_8 3 3 \<noteq> player_value EMPTY"
    unfolding initial_8_def by code_simp
  have h3: "\<not> list_ex (\<lambda>(dr, dc). can_flip_in_direction initial_8 0 0 dr dc BLACK) directions"
    unfolding initial_8_def by code_simp
  show ?thesis
    using h1 h2 h3 make_move_illegal[of initial_8 8 8 BLACK]
      make_move_illegal[of initial_8 3 3 BLACK] make_move_illegal[of initial_8 0 0 BLACK]
    by blast
qed

section \<open>The pass inside the search\<close>

text \<open>
  Claim C7. On a board that is not terminal and at a depth above zero, when the player to
  move has no legal move, \<^verbatim>\<open>_minimax\<close> is the call on the same board at \<open>depth - 1\<close> with
  the same window and the maximizing flag flipped.
\<close>

theorem minimax_pass:
  "\<not> is_game_over b \<Longrightarrow> 0 < depth \<Longrightarrow>
   get_valid_moves b (if is_maximizing then cpu_player cpu else cpu_opponent cpu) = [] \<Longrightarrow>
   minimax cpu b depth alpha beta is_maximizing
     = minimax cpu b (depth - 1) alpha beta (\<not> is_maximizing)"
  by (subst minimax.simps) simp

theorem minimax_pass_witness:
  "\<not> is_game_over pass_4 \<and> (0::nat) < 2
   \<and> get_valid_moves pass_4
        (if True then cpu_player (init_cpu WHITE 3) else cpu_opponent (init_cpu WHITE 3)) = []
   \<and> minimax (init_cpu WHITE 3) pass_4 2 NegInf PosInf True
        = minimax (init_cpu WHITE 3) pass_4 (2 - 1) NegInf PosInf (\<not> True)"
proof -
  have h1: "\<not> is_game_over pass_4"
    unfolding pass_4_def by code_simp
  have h2: "get_valid_moves pass_4
        (if True then cpu_player (init_cpu WHITE 3) else cpu_opponent (init_cpu WHITE 3)) = []"
    unfolding pass_4_def by code_simp
  show ?thesis
    using h1 h2 minimax_pass[OF h1 _ h2, of 2 NegInf PosInf] by simp
qed

section \<open>Terminal positions\<close>

text \<open>
  Claim C8. On a terminal board the evaluation from Black's side is the negation of the
  evaluation from White's side; it is 1000 when Black has more pieces, -1000 when White
  has more, and 0 when the counts are equal.
\<close>

theorem terminal_antisymmetric:
  "is_game_over b \<Longrightarrow>
   \<exists>v. evaluate_board (init_cpu BLACK d) b = Inr v
      \<and> evaluate_board (init_cpu WHITE d') b = Inr (- v)
      \<and> (fst (get_score b) > snd (get_score b) \<longrightarrow> v = 1000)
      \<and> (fst (get_score b) < snd (get_score b) \<longrightarrow> v = - 1000)
      \<and> (fst (get_score b) = snd (get_score b) \<longrightarrow> v = 0)"
  by (auto simp: evaluate_board_def terminal_score_def init_cpu_def split: prod.splits)

theorem terminal_antisymmetric_witness:
  "is_game_over full_4
   \<and> evaluate_board (init_cpu BLACK 3) full_4 = Inr 1000
   \<and> evaluate_board (init_cpu WHITE 3) full_4 = Inr (- 1000)"
proof -
  have h: "is_game_over full_4"
    unfolding full_4_def by code_simp
  have s: "get_score full_4 = (15, 1)"
    unfolding full_4_def by code_simp
  show ?thesis
    using h s terminal_antisymmetric[OF h, of 3 3] by auto
qed


section \<open>Evaluations at concrete positions\<close>

lemma init_board_10: "init_board 10 = Inr initial_10"
  unfolding initial_10_def by code_simp

lemma greedy_8_play:
  "snd (make_move (snd (make_move (snd (make_move (snd (make_move (snd (make_move
     initial_8 2 3 BLACK)) 2 2 WHITE)) 4 5 BLACK)) 5 3 WHITE)) 6 3 BLACK) = greedy_8"
  unfolding initial_8_def greedy_8_def by code_simp

lemma wide_10_play:
  "snd (make_move (snd (make_move (snd (make_move (snd (make_move (snd (make_move
     initial_10 5 6 BLACK)) 4 6 WHITE)) 3 6 BLACK)) 4 7 WHITE)) 3 8 BLACK) = wide_10"
  unfolding initial_10_def wide_10_def by code_simp

lemma reachable_greedy_8: "reachable 8 greedy_8"
  unfolding greedy_8_play[symmetric]
  by (intro reachable.moved reachable.fresh) (rule init_board_8)

lemma reachable_wide_10: "reachable 10 wide_10"
  unfolding wide_10_play[symmetric]
  by (intro reachable.moved reachable.fresh) (rule init_board_10)

text \<open>
  Claim C2, at difficulty 2. In the position \<open>greedy_8\<close>, reached by five moves from the
  opening, White has the legal moves (2,4) and (5,5). The evaluator scores the board after
  (2,4) at -35 and the board after (5,5) at -7, and \<^verbatim>\<open>get_move\<close> returns (2,4): no score
  exceeds the initial \<^verbatim>\<open>best_score = -1\<close>, so \<^verbatim>\<open>best_move\<close> stays \<^verbatim>\<open>valid_moves[0]\<close>.
\<close>

theorem greedy_returns_dominated_move:
  "reachable 8 greedy_8
   \<and> get_valid_moves greedy_8 WHITE = [(2, 4), (5, 5)]
   \<and> evaluate_board (init_cpu WHITE 2) (snd (make_move greedy_8 2 4 WHITE)) = Inr (- 35)
   \<and> evaluate_board (init_cpu WHITE 2) (snd (make_move greedy_8 5 5 WHITE)) = Inr (- 7)
   \<and> get_move (init_cpu WHITE 2) greedy_8 0 = Inr (Some (2, 4))"
proof -
  have moves: "get_valid_moves greedy_8 WHITE = [(2, 4), (5, 5)]"
    unfolding greedy_8_def by code_simp
  have first: "evaluate_board (init_cpu WHITE 2) (snd (make_move greedy_8 2 4 WHITE)) = Inr (- 35)"
    unfolding greedy_8_def by code_simp
  have second: "evaluate_board (init_cpu WHITE 2) (snd (make_move greedy_8 5 5 WHITE)) = Inr (- 7)"
    unfolding greedy_8_def by code_simp
  have chosen: "get_move (init_cpu WHITE 2) greedy_8 0 = Inr (Some (2, 4))"
    unfolding greedy_8_def by code_simp
  show ?thesis
    using reachable_greedy_8 moves first second chosen by simp
qed

text \<open>
  Claim C3, on a board of size 10. In the position \<open>wide_10\<close>, reached by five moves from
  \<^verbatim>\<open>OthelloBoard(10)\<close>, Black holds the cell (3,8); the evaluator reads
  \<^verbatim>\<open>position_values[3, 8]\<close> outside its 8 by 8 table and raises \<^verbatim>\<open>IndexError\<close>.
\<close>

theorem evaluate_board_raises_on_10:
  "reachable 10 wide_10 \<and> wf_board wide_10 \<and> cells_valid wide_10
   \<and> evaluate_board (init_cpu BLACK 4) wide_10 = Inl IndexError"
proof -
  have shape: "wf_board wide_10 \<and> cells_valid wide_10"
    unfolding wide_10_def by code_simp
  have raises: "evaluate_board (init_cpu BLACK 4) wide_10 = Inl IndexError"
    unfolding wide_10_def by code_simp
  show ?thesis
    using reachable_wide_10 shape raises by simp
qed

text \<open>
  Claim C4 as stated fails. The board \<open>heavy_8\<close> is well formed, 8 by 8 and not terminal
  (both players can move to (0,2)), and its heuristic score for Black is 1212.
\<close>

theorem heuristic_exceeds_terminal_constant:
  "wf_board heavy_8 \<and> cells_valid heavy_8 \<and> b_size heavy_8 = 8 \<and> \<not> is_game_over heavy_8
   \<and> evaluate_board (init_cpu BLACK 4) heavy_8 = Inr 1212
   \<and> heuristic_score (init_cpu BLACK 4) heavy_8 = Inr 1212
   \<and> \<not> \<bar>1212\<bar> < (1000 :: int)"
proof -
  have shape: "wf_board heavy_8 \<and> cells_valid heavy_8 \<and> b_size heavy_8 = 8"
    unfolding heavy_8_def by code_simp
  have live: "\<not> is_game_over heavy_8"
    unfolding heavy_8_def by code_simp
  have score: "heuristic_score (init_cpu BLACK 4) heavy_8 = Inr 1212"
    unfolding heavy_8_def by code_simp
  show ?thesis
    using shape live score by (simp add: evaluate_board_def)
qed


section \<open>Instances on concrete positions\<close>

theorem legal_move_counts_witness:
  "wf_board initial_8 \<and> is_valid_move initial_8 2 3 BLACK
   \<and> fst (make_move initial_8 2 3 BLACK)
   \<and> count_cells initial_8 (player_value BLACK) + 2
       \<le> count_cells (snd (make_move initial_8 2 3 BLACK)) (player_value BLACK)
   \<and> occupied_cells (snd (make_move initial_8 2 3 BLACK)) = occupied_cells initial_8 + 1"
proof -
  have h1: "wf_board initial_8"
    unfolding initial_8_def by code_simp
  have h2: "is_valid_move initial_8 2 3 BLACK"
    unfolding initial_8_def by code_simp
  show ?thesis
    using h1 h2 legal_move_counts[OF h1 h2] by simp
qed

theorem reachable_cell_values_witness:
  "reachable 8 greedy_8 \<and> wf_board greedy_8 \<and> b_size greedy_8 = 8 \<and> cells_valid greedy_8"
  using reachable_greedy_8 reachable_cell_values[OF reachable_greedy_8]
  by (simp add: cells_valid_def list_all_iff)

theorem heuristic_bound_witness:
  "wf_board heavy_8 \<and> b_size heavy_8 = 8 \<and> \<not> is_game_over heavy_8
   \<and> (BLACK = BLACK \<or> BLACK = WHITE)
   \<and> (\<exists>h. evaluate_board (init_cpu BLACK 4) heavy_8 = Inr h \<and> \<bar>h\<bar> \<le> 1232)"
proof -
  have h1: "wf_board heavy_8"
    unfolding heavy_8_def by code_simp
  have h2: "b_size heavy_8 = 8"
    by (simp add: heavy_8_def)
  have h3: "\<not> is_game_over heavy_8"
    unfolding heavy_8_def by code_simp
  have h4: "BLACK = BLACK \<or> BLACK = WHITE"
    by simp
  show ?thesis
    using h1 h2 h3 heuristic_bound[OF h1 h2 h3 h4, of 4] by simp
qed

end
